theory Spec2Isabelle
  imports Complex_Main "HOL-Library.AList"
begin

section \<open>Layout items\<close>

text \<open>
  The layout tree that pdfminer hands to \<^verbatim>\<open>_RectExtractor.render\<close>. \<^verbatim>\<open>render\<close> tells items
  apart with \<^verbatim>\<open>isinstance\<close> only: \<^verbatim>\<open>LTTextLine\<close> and \<^verbatim>\<open>LTTextBox\<close> are both subclasses of
  \<^verbatim>\<open>LTContainer\<close>; every other container (\<^verbatim>\<open>LTPage\<close>, \<^verbatim>\<open>LTFigure\<close>, ...) is
  \<open>LTOtherContainer\<close>. \<^verbatim>\<open>LTChar\<close> has a bounding box and a text, \<^verbatim>\<open>LTAnno\<close> a text only.
  \<open>LTOther\<close> stands for the items no branch of \<^verbatim>\<open>render\<close> handles (lines, curves,
  images). The type \<open>'g\<close> is the geometry of an \<^verbatim>\<open>LTComponent\<close>.
\<close>

datatype container_kind = LTTextLine | LTTextBox | LTOtherContainer

datatype 'g LTItem =
    LTContainer container_kind 'g "'g LTItem list"
  | LTChar 'g string
  | LTAnno string
  | LTOther 'g

datatype error =
    AssertionError
  | AttributeError
  | IndexError
  | TypeError
  | ValueError
  | KeyError
  | PDFNoOutlines

abbreviation newline :: string where
  "newline \<equiv> [CHR 0x0A]"

section \<open>Entities of \<^verbatim>\<open>pdfannots.types\<close>\<close>

text \<open>
  Modelled from the spec: the class \<^verbatim>\<open>Pos\<close> of \<^verbatim>\<open>pdfannots/types.py\<close>, which is not
  among the sources. Of the spec's Position (page index, page sequence, tiebreak
  coordinates) only the page sequence changes while a page is rendered; it is kept in the
  explicit two-phase form of the spec's design notes: a pending form distinguishable from
  the resolved form.
\<close>

datatype Pos = Pending | Resolved int

text \<open>
  Modelled from the spec: \<^verbatim>\<open>Pos.update_pageseq\<close> of \<^verbatim>\<open>pdfannots/types.py\<close>. The spec's
  \<^verbatim>\<open>advance\<close> stamps the new counter value onto a pending unresolved Position, and the
  Position is fixed to the value of first contact, not the final one.
\<close>

fun Pos_update_pageseq :: "'g \<Rightarrow> int \<Rightarrow> Pos \<Rightarrow> Pos" where
  "Pos_update_pageseq line n Pending = Resolved n"
| "Pos_update_pageseq line n (Resolved m) = Resolved m"

typedecl datetime

text \<open>
  Modelled from the spec: the class \<^verbatim>\<open>Annotation\<close> of \<^verbatim>\<open>pdfannots/types.py\<close>: subtype,
  BoxCollection (\<open>None\<close> when absent), note contents, author, creation time, the
  accumulated captured text and the lazily assigned start Position.
\<close>

record 'b Annotation =
  subtype :: string
  boxes :: "'b list option"
  contents :: "string option"
  author :: "string option"
  created :: "datetime option"
  text' :: string
  startpos :: "Pos option"

text \<open>
  Modelled from the spec: \<^verbatim>\<open>Annotation.capture\<close> of \<^verbatim>\<open>pdfannots/types.py\<close>. The captured
  text is an append-only string builder; the start Position is assigned lazily, the first
  time any text is matched to the annotation. \<^verbatim>\<open>render\<close> passes \<^verbatim>\<open>capture\<close> the text only,
  so the Position it creates is the pending form.
\<close>

definition capture :: "string \<Rightarrow> 'b Annotation \<Rightarrow> 'b Annotation" where
  "capture t a =
     a\<lparr>text' := text' a @ t,
       startpos := (case startpos a of None \<Rightarrow> Some Pending | Some q \<Rightarrow> Some q)\<rparr>"

text \<open>
  A PDF object as pdfminer hands it over: \<open>PNone\<close> is Python's \<^verbatim>\<open>None\<close>, \<open>PSLiteral\<close> an
  interned name object, \<open>PDFObjRef\<close> an indirect reference by object id.
\<close>

datatype pdfobj =
    PDFObjRef nat
  | PSLiteral string
  | PBytes string
  | PInt int
  | PReal real
  | PList "pdfobj list"
  | PBool bool
  | PDict "(string \<times> pdfobj) list"
  | PNone

text \<open>
  Modelled from the spec: the class \<^verbatim>\<open>Outline\<close> of \<^verbatim>\<open>pdfannots/types.py\<close>: title, page
  reference (a page index or an indirect object), target point, and a Position once
  resolved.
\<close>

record Outline =
  title :: pdfobj
  pageref :: pdfobj
  target :: "pdfobj \<times> pdfobj"
  pos :: "Pos option"

text \<open>
  Modelled from the spec: the class \<^verbatim>\<open>Page\<close> of \<^verbatim>\<open>pdfannots/types.py\<close>, built by
  \<^verbatim>\<open>Page(pageno, objid)\<close> with no annotations and no outlines.
\<close>

record 'b Page =
  pageno :: nat
  objid :: nat
  annots :: "'b Annotation list"
  outlines :: "Outline list"

section \<open>The binding engine: \<^verbatim>\<open>_RectExtractor\<close>\<close>

text \<open>
  The fields of \<^verbatim>\<open>_RectExtractor\<close>. The two sets hold annotation objects of the page; an
  annotation is identified by its index in \<^verbatim>\<open>page.annots\<close>, and the page's list is the
  store the sets alias.
\<close>

record 'b RectExtractor =
  page :: "'b Page option"
  pageseq :: int
  lasthit :: "nat set"
  curline :: "nat set"

definition start_page :: "'b Page \<Rightarrow> 'b RectExtractor \<Rightarrow> 'b RectExtractor" where
  "start_page p s = s\<lparr>page := Some p, pageseq := 0\<rparr>"

text \<open>\<^verbatim>\<open>for a in S: a.capture(t)\<close>, for a set \<open>S\<close> of annotations of the page.\<close>

definition capture_at :: "nat set \<Rightarrow> string \<Rightarrow> 'b Annotation list \<Rightarrow> 'b Annotation list" where
  "capture_at S t as = map (\<lambda>i. if i \<in> S then capture t (as ! i) else as ! i) [0..<length as]"

definition capture_all :: "nat set \<Rightarrow> string \<Rightarrow> 'b RectExtractor \<Rightarrow> 'b RectExtractor" where
  "capture_all S t s =
     s\<lparr>page := map_option (\<lambda>p. p\<lparr>annots := capture_at S t (annots p)\<rparr>) (page s)\<rparr>"

definition stamp_annot :: "'g \<Rightarrow> int \<Rightarrow> 'b Annotation \<Rightarrow> 'b Annotation" where
  "stamp_annot line n a =
     (case startpos a of
        None \<Rightarrow> a
      | Some q \<Rightarrow> a\<lparr>startpos := Some (Pos_update_pageseq line n q)\<rparr>)"

definition stamp_outline :: "'g \<Rightarrow> int \<Rightarrow> Outline \<Rightarrow> Outline" where
  "stamp_outline line n ol = ol\<lparr>pos := map_option (Pos_update_pageseq line n) (pos ol)\<rparr>"

definition update_pageseq :: "'g \<Rightarrow> 'b RectExtractor \<Rightarrow> error + 'b RectExtractor" where
  "update_pageseq line s =
     (case page s of
        None \<Rightarrow> Inl AssertionError
      | Some p \<Rightarrow>
          let n = pageseq s + 1 in
          if list_all (\<lambda>ol. pos ol \<noteq> None) (outlines p)
          then Inr (s\<lparr>pageseq := n,
                      page := Some (p\<lparr>annots := map (stamp_annot line n) (annots p),
                                       outlines := map (stamp_outline line n) (outlines p)\<rparr>)\<rparr>)
          else Inl AssertionError)"

text \<open>
  \<^verbatim>\<open>a.boxes and any({b.hit_item(item) for b in a.boxes})\<close>: \<open>hit\<close> is \<^verbatim>\<open>Box.hit_item\<close> of
  \<^verbatim>\<open>pdfannots/types.py\<close>, a parameter here.
\<close>

definition box_hit :: "('b \<Rightarrow> 'g \<Rightarrow> bool) \<Rightarrow> 'g \<Rightarrow> 'b Annotation \<Rightarrow> bool" where
  "box_hit hit item a =
     (case boxes a of
        None \<Rightarrow> False
      | Some bs \<Rightarrow> bs \<noteq> [] \<and> list_ex (\<lambda>b. hit b item) bs)"

definition hitset :: "('b \<Rightarrow> 'g \<Rightarrow> bool) \<Rightarrow> 'g \<Rightarrow> 'b Annotation list \<Rightarrow> nat set" where
  "hitset hit item as = set (filter (\<lambda>i. box_hit hit item (as ! i)) [0..<length as])"

definition testboxes ::
  "('b \<Rightarrow> 'g \<Rightarrow> bool) \<Rightarrow> 'g \<Rightarrow> 'b RectExtractor \<Rightarrow> error + (nat set \<times> 'b RectExtractor)" where
  "testboxes hit item s =
     (case page s of
        None \<Rightarrow> Inl AssertionError
      | Some p \<Rightarrow>
          let hits = hitset hit item (annots p)
          in Inr (hits, s\<lparr>lasthit := hits, curline := curline s \<union> hits\<rparr>))"

definition capture_newline :: "'b RectExtractor \<Rightarrow> 'b RectExtractor" where
  "capture_newline s = (capture_all (curline s) newline s)\<lparr>curline := {}\<rparr>"

fun render :: "('b \<Rightarrow> 'g \<Rightarrow> bool) \<Rightarrow> 'g LTItem \<Rightarrow> 'b RectExtractor \<Rightarrow> error + 'b RectExtractor"
  and render_children ::
    "('b \<Rightarrow> 'g \<Rightarrow> bool) \<Rightarrow> 'g LTItem list \<Rightarrow> 'b RectExtractor \<Rightarrow> error + 'b RectExtractor"
where
  "render hit (LTContainer k g cs) s =
     (case (if k = LTTextLine then update_pageseq g s else Inr s) of
        Inl e \<Rightarrow> Inl e
      | Inr s1 \<Rightarrow>
          (case render_children hit cs s1 of
             Inl e \<Rightarrow> Inl e
           | Inr s2 \<Rightarrow>
               if k = LTTextBox
               then (case testboxes hit g s2 of
                       Inl e \<Rightarrow> Inl e
                     | Inr (hits, s3) \<Rightarrow> Inr (capture_newline s3))
               else Inr s2))"
| "render hit (LTChar g t) s =
     (case testboxes hit g s of
        Inl e \<Rightarrow> Inl e
      | Inr (hits, s1) \<Rightarrow> Inr (capture_all hits t s1))"
| "render hit (LTAnno t) s =
     (if t = newline then Inr (capture_newline s) else Inr (capture_all (lasthit s) t s))"
| "render hit (LTOther g) s = Inr s"
| "render_children hit [] s = Inr s"
| "render_children hit (c # cs) s =
     (case render hit c s of
        Inl e \<Rightarrow> Inl e
      | Inr s1 \<Rightarrow> render_children hit cs s1)"

definition receive_layout ::
  "('b \<Rightarrow> 'g \<Rightarrow> bool) \<Rightarrow> 'g LTItem \<Rightarrow> 'b RectExtractor \<Rightarrow> error + 'b RectExtractor" where
  "receive_layout hit ltpage s = render hit ltpage (s\<lparr>lasthit := {}, curline := {}\<rparr>)"

section \<open>The primitive stream\<close>

text \<open>
  The order in which \<^verbatim>\<open>render\<close> meets the primitives of a layout tree: a line boundary
  when it enters a text line, the characters and whitespace in layout order, and the end of
  a text box after its children. The end of any other container, and an item of no handled
  kind, is no primitive: \<^verbatim>\<open>render\<close> does nothing there.
\<close>

datatype 'g primitive =
    LineBoundary 'g
  | TextBoxEnd 'g
  | Character 'g string
  | Whitespace string

fun primitives :: "'g LTItem \<Rightarrow> 'g primitive list"
  and primitives_list :: "'g LTItem list \<Rightarrow> 'g primitive list"
where
  "primitives (LTContainer k g cs) =
     (if k = LTTextLine then [LineBoundary g] else []) @ primitives_list cs @
     (if k = LTTextBox then [TextBoxEnd g] else [])"
| "primitives (LTChar g t) = [Character g t]"
| "primitives (LTAnno t) = [Whitespace t]"
| "primitives (LTOther g) = []"
| "primitives_list [] = []"
| "primitives_list (c # cs) = primitives c @ primitives_list cs"

fun step :: "('b \<Rightarrow> 'g \<Rightarrow> bool) \<Rightarrow> 'g primitive \<Rightarrow> 'b RectExtractor \<Rightarrow> error + 'b RectExtractor" where
  "step hit (LineBoundary g) s = update_pageseq g s"
| "step hit (TextBoxEnd g) s =
     (case testboxes hit g s of
        Inl e \<Rightarrow> Inl e
      | Inr (hits, s1) \<Rightarrow> Inr (capture_newline s1))"
| "step hit (Character g t) s =
     (case testboxes hit g s of
        Inl e \<Rightarrow> Inl e
      | Inr (hits, s1) \<Rightarrow> Inr (capture_all hits t s1))"
| "step hit (Whitespace t) s =
     (if t = newline then Inr (capture_newline s) else Inr (capture_all (lasthit s) t s))"

fun run :: "('b \<Rightarrow> 'g \<Rightarrow> bool) \<Rightarrow> 'g primitive list \<Rightarrow> 'b RectExtractor \<Rightarrow> error + 'b RectExtractor" where
  "run hit [] s = Inr s"
| "run hit (e # es) s =
     (case step hit e s of
        Inl err \<Rightarrow> Inl err
      | Inr s1 \<Rightarrow> run hit es s1)"

fun count_lines :: "'g LTItem \<Rightarrow> nat"
  and count_lines_list :: "'g LTItem list \<Rightarrow> nat"
where
  "count_lines (LTContainer k g cs) = (if k = LTTextLine then 1 else 0) + count_lines_list cs"
| "count_lines (LTChar g t) = 0"
| "count_lines (LTAnno t) = 0"
| "count_lines (LTOther g) = 0"
| "count_lines_list [] = 0"
| "count_lines_list (c # cs) = count_lines c + count_lines_list cs"

text \<open>
  The state in which \<^verbatim>\<open>process_file\<close> renders a page: \<^verbatim>\<open>start_page\<close> has set the page, and
  every outline of the page has a position, so that no assertion of the engine fails.
\<close>

definition ready :: "'b RectExtractor \<Rightarrow> bool" where
  "ready s =
     (case page s of
        None \<Rightarrow> False
      | Some p \<Rightarrow> list_all (\<lambda>ol. pos ol \<noteq> None) (outlines p))"

definition the_annots :: "'b RectExtractor \<Rightarrow> 'b Annotation list" where
  "the_annots s = (case page s of None \<Rightarrow> [] | Some p \<Rightarrow> annots p)"

text \<open>Primitives that run a hit-test, and so replace the last-hit set.\<close>

fun hit_tests :: "'g primitive \<Rightarrow> bool" where
  "hit_tests (Character g t) = True"
| "hit_tests (TextBoxEnd g) = True"
| "hit_tests (LineBoundary g) = False"
| "hit_tests (Whitespace t) = False"

fun is_line_boundary :: "'g primitive \<Rightarrow> bool" where
  "is_line_boundary (LineBoundary g) = True"
| "is_line_boundary (TextBoxEnd g) = False"
| "is_line_boundary (Character g t) = False"
| "is_line_boundary (Whitespace t) = False"

text \<open>Primitives whose text, when they have one, is not empty.\<close>

fun has_text :: "'g primitive \<Rightarrow> bool" where
  "has_text (Character g t) = (t \<noteq> [])"
| "has_text (Whitespace t) = (t \<noteq> [])"
| "has_text (LineBoundary g) = True"
| "has_text (TextBoxEnd g) = True"

text \<open>
  An annotation since the start of the render pass, when its text was \<open>t0\<close>: either nothing
  was captured and it has no start Position, or text was captured and it has one.
\<close>

definition touched :: "string \<Rightarrow> 'b Annotation \<Rightarrow> bool" where
  "touched t0 a \<longleftrightarrow>
     (if startpos a = None then text' a = t0 else length t0 < length (text' a))"

text \<open>An annotation whose BoxCollection is absent or empty.\<close>

definition no_boxes :: "'b Annotation \<Rightarrow> bool" where
  "no_boxes a \<longleftrightarrow> boxes a = None \<or> boxes a = Some []"

section \<open>Annotations and outlines from PDF objects\<close>

text \<open>Sequencing of steps that may raise: the first exception ends the computation.\<close>

definition bind_err :: "error + 'a \<Rightarrow> ('a \<Rightarrow> error + 'c) \<Rightarrow> error + 'c" where
  "bind_err m f = (case m of Inl e \<Rightarrow> Inl e | Inr x \<Rightarrow> f x)"

text \<open>Python's truth value of an object, as \<^verbatim>\<open>or\<close> and \<^verbatim>\<open>if\<close> read it.\<close>

fun truthy :: "pdfobj \<Rightarrow> bool" where
  "truthy PNone = False"
| "truthy (PBool b) = b"
| "truthy (PInt n) = (n \<noteq> 0)"
| "truthy (PReal r) = (r \<noteq> 0)"
| "truthy (PBytes b) = (b \<noteq> [])"
| "truthy (PList xs) = (xs \<noteq> [])"
| "truthy (PDict kvs) = (kvs \<noteq> [])"
| "truthy (PSLiteral n) = True"
| "truthy (PDFObjRef n) = True"

definition py_or :: "pdfobj \<Rightarrow> pdfobj \<Rightarrow> pdfobj" where
  "py_or a b = (if truthy a then a else b)"

text \<open>\<^verbatim>\<open>d.get(k)\<close>: only a dictionary has the method.\<close>

fun dict_get :: "pdfobj \<Rightarrow> string \<Rightarrow> error + pdfobj" where
  "dict_get (PDict kvs) k = Inr (case map_of kvs k of None \<Rightarrow> PNone | Some v \<Rightarrow> v)"
| "dict_get other k = Inl AttributeError"

text \<open>\<^verbatim>\<open>x.name\<close>: only a name object has the attribute.\<close>

fun name_of :: "pdfobj \<Rightarrow> error + string" where
  "name_of (PSLiteral n) = Inr n"
| "name_of other = Inl AttributeError"

definition ANNOT_SUBTYPES :: "string set" where
  "ANNOT_SUBTYPES = {''Text'', ''Highlight'', ''Squiggly'', ''StrikeOut'', ''Underline''}"

datatype logmsg =
    Warning_unsupported_pageref pdfobj
  | Warning_unknown_annotation pdfobj
  | Warning_failed_outlines error
  | Info_no_outlines

text \<open>
  What \<^verbatim>\<open>process_file\<close> takes from outside this module: pdfminer's \<^verbatim>\<open>resolve1\<close>,
  \<^verbatim>\<open>PDFObjRef.resolve\<close>, \<^verbatim>\<open>decode_text\<close> and \<^verbatim>\<open>PDFDocument.get_dest\<close>;
  \<^verbatim>\<open>cleanup_text\<close> and \<^verbatim>\<open>decode_datetime\<close> of \<^verbatim>\<open>pdfannots/utils.py\<close>; and of
  \<^verbatim>\<open>pdfannots/types.py\<close> the boxes that \<^verbatim>\<open>Annotation\<close> builds from its quad points and
  rectangle, \<^verbatim>\<open>Box.hit_item\<close>, and the orders by which annotations and outlines sort.
  None of them is among the sources; all are parameters.
\<close>

record ('b, 'g) extern =
  resolve1 :: "pdfobj \<Rightarrow> pdfobj"
  resolve_ref :: "nat \<Rightarrow> pdfobj"
  decode_text :: "pdfobj \<Rightarrow> error + string"
  get_dest :: "string \<Rightarrow> error + pdfobj"
  cleanup_text :: "string \<Rightarrow> string"
  decode_datetime :: "string \<Rightarrow> datetime option"
  mk_boxes :: "pdfobj \<Rightarrow> pdfobj \<Rightarrow> 'b list option"
  hit_item :: "'b \<Rightarrow> 'g \<Rightarrow> bool"
  sort_annots :: "'b Annotation list \<Rightarrow> 'b Annotation list"
  sort_outlines :: "Outline list \<Rightarrow> Outline list"

text \<open>
  Modelled from the spec: the constructor of \<^verbatim>\<open>Annotation\<close> (\<^verbatim>\<open>pdfannots/types.py\<close>): a new
  annotation has no captured text and no start Position.
\<close>

definition Annotation_init ::
  "string \<Rightarrow> 'b list option \<Rightarrow> string option \<Rightarrow> string option \<Rightarrow> datetime option \<Rightarrow> 'b Annotation" where
  "Annotation_init tagname bs cont auth crea =
     \<lparr>subtype = tagname, boxes = bs, contents = cont, author = auth, created = crea,
      text' = [], startpos = None\<rparr>"

definition decode_opt :: "('b, 'g) extern \<Rightarrow> pdfobj \<Rightarrow> error + string option" where
  "decode_opt X v =
     (if v \<noteq> PNone then bind_err (decode_text X v) (\<lambda>t. Inr (Some t)) else Inr None)"

definition mkannotation ::
  "('b, 'g) extern \<Rightarrow> pdfobj \<Rightarrow> 'b Page \<Rightarrow> error + 'b Annotation option" where
  "mkannotation X pa pg =
     bind_err (dict_get pa ''Subtype'') (\<lambda>subtype.
     bind_err (if subtype \<noteq> PNone
               then bind_err (name_of subtype) (\<lambda>n. Inr (n \<notin> ANNOT_SUBTYPES))
               else Inr False) (\<lambda>unsupported.
     if unsupported then Inr None
     else
       bind_err (dict_get pa ''Contents'') (\<lambda>cont.
       bind_err (decode_opt X cont) (\<lambda>cont_text.
       bind_err (dict_get pa ''QuadPoints'') (\<lambda>quadpoints.
       bind_err (dict_get pa ''Rect'') (\<lambda>rect.
       bind_err (dict_get pa ''T'') (\<lambda>t.
       bind_err (decode_opt X (resolve1 X t)) (\<lambda>auth.
       bind_err (dict_get pa ''CreationDate'') (\<lambda>creation_date.
       bind_err (dict_get pa ''ModDate'') (\<lambda>mod_date.
       bind_err (dict_get pa ''M'') (\<lambda>m.
       bind_err (decode_opt X (resolve1 X (py_or (py_or creation_date mod_date) m))) (\<lambda>createds.
       bind_err (name_of subtype) (\<lambda>tagname.
       Inr (Some (Annotation_init tagname
                    (mk_boxes X (resolve1 X quadpoints) (resolve1 X rect))
                    (map_option (cleanup_text X) cont_text) auth
                    (case createds of None \<Rightarrow> None | Some c \<Rightarrow> decode_datetime X c))))))))))))))))"

text \<open>\<^verbatim>\<open>dest['D']\<close> on a dictionary.\<close>

definition resolve_dest :: "('b, 'g) extern \<Rightarrow> pdfobj \<Rightarrow> error + pdfobj" where
  "resolve_dest X dest =
     bind_err (case dest of
                 PBytes b \<Rightarrow> bind_err (get_dest X b) (\<lambda>d. Inr (resolve1 X d))
               | PSLiteral n \<Rightarrow> bind_err (get_dest X n) (\<lambda>d. Inr (resolve1 X d))
               | other \<Rightarrow> Inr other) (\<lambda>d.
     case d of
       PDict kvs \<Rightarrow> (case map_of kvs ''D'' of None \<Rightarrow> Inl KeyError | Some v \<Rightarrow> Inr v)
     | other \<Rightarrow> Inr other)"

text \<open>\<^verbatim>\<open>dest[1]\<close> and the unpacking of \<^verbatim>\<open>dest[:4]\<close> into four names.\<close>

fun index1 :: "pdfobj \<Rightarrow> error + pdfobj" where
  "index1 (PList xs) = (if 1 < length xs then Inr (xs ! 1) else Inl IndexError)"
| "index1 (PBytes b) = (if 1 < length b then Inr (PInt (int (of_char (b ! 1)))) else Inl IndexError)"
| "index1 (PDict kvs) = Inl KeyError"
| "index1 other = Inl TypeError"

fun first4 :: "pdfobj \<Rightarrow> error + (pdfobj \<times> pdfobj \<times> pdfobj \<times> pdfobj)" where
  "first4 (PList xs) =
     (if 4 \<le> length xs then Inr (xs ! 0, xs ! 1, xs ! 2, xs ! 3) else Inl ValueError)"
| "first4 (PBytes b) =
     (if 4 \<le> length b
      then Inr (PInt (int (of_char (b ! 0))), PInt (int (of_char (b ! 1))),
                PInt (int (of_char (b ! 2))), PInt (int (of_char (b ! 3))))
      else Inl ValueError)"
| "first4 other = Inl TypeError"

fun is_pageref :: "pdfobj \<Rightarrow> bool" where
  "is_pageref (PInt n) = True"
| "is_pageref (PDFObjRef n) = True"
| "is_pageref other = False"

text \<open>
  Modelled from the spec: the constructor of \<^verbatim>\<open>Outline\<close> and \<^verbatim>\<open>Outline.resolve\<close>
  (\<^verbatim>\<open>pdfannots/types.py\<close>): an outline has no Position until it is resolved against its
  page, and then a Position whose page sequence is still pending.
\<close>

definition Outline_init :: "pdfobj \<Rightarrow> pdfobj \<Rightarrow> pdfobj \<times> pdfobj \<Rightarrow> Outline" where
  "Outline_init ti pr tg = \<lparr>title = ti, pageref = pr, target = tg, pos = None\<rparr>"

definition Outline_resolve :: "'b Page \<Rightarrow> Outline \<Rightarrow> Outline" where
  "Outline_resolve pg ol = ol\<lparr>pos := Some Pending\<rparr>"

text \<open>
  The rest of a round of the loop of \<^verbatim>\<open>_get_outlines\<close>, once the destination is resolved:
  only a target of the form \<^verbatim>\<open>[page /XYZ left top zoom]\<close> is considered.
\<close>

definition outline_of_dest :: "pdfobj \<Rightarrow> pdfobj \<Rightarrow> error + (Outline option \<times> logmsg list)" where
  "outline_of_dest ti dest =
     bind_err (index1 dest) (\<lambda>mode.
     if mode = PSLiteral ''XYZ''
     then bind_err (first4 dest) (\<lambda>(pr, m, targetx, targety).
            if is_pageref pr
            then Inr (Some (Outline_init ti pr (targetx, targety)), [])
            else Inr (None, [Warning_unsupported_pageref pr]))
     else Inr (None, []))"

text \<open>
  One round of the loop of \<^verbatim>\<open>_get_outlines\<close>, for one tuple (title, destination, action)
  of \<^verbatim>\<open>doc.get_outlines()\<close>: the outline it yields, if any, and what it logs.
\<close>

definition outline_step ::
  "('b, 'g) extern \<Rightarrow> pdfobj \<times> pdfobj \<times> pdfobj \<Rightarrow> error + (Outline option \<times> logmsg list)" where
  "outline_step X r =
     (case r of (ti, destname0, actionref) \<Rightarrow>
        let destname =
          (if destname0 = PNone \<and> truthy actionref
           then (case resolve1 X actionref of
                   PDict kvs \<Rightarrow>
                     (if map_of kvs ''S'' = Some (PSLiteral ''GoTo'')
                      then (case map_of kvs ''D'' of None \<Rightarrow> PNone | Some v \<Rightarrow> v)
                      else destname0)
                 | other \<Rightarrow> destname0)
           else destname0)
        in
        if destname = PNone then Inr (None, [])
        else bind_err (resolve_dest X destname) (outline_of_dest ti))"

text \<open>
  The generator \<^verbatim>\<open>_get_outlines\<close>: the outlines it yields and the warnings it logs until it
  is exhausted or raises. \<open>gen_err\<close> is the exception with which \<^verbatim>\<open>doc.get_outlines()\<close>
  itself ends, if any (\<^verbatim>\<open>PDFNoOutlines\<close> for a document without outlines).
\<close>

fun get_outlines ::
  "('b, 'g) extern \<Rightarrow> (pdfobj \<times> pdfobj \<times> pdfobj) list \<Rightarrow> error option \<Rightarrow>
   Outline list \<times> logmsg list \<times> error option" where
  "get_outlines X [] gen_err = ([], [], gen_err)"
| "get_outlines X (r # rs) gen_err =
     (case outline_step X r of
        Inl e \<Rightarrow> ([], [], Some e)
      | Inr (ol, l) \<Rightarrow>
          (case get_outlines X rs gen_err of
             (ols, ls, err) \<Rightarrow> ((case ol of None \<Rightarrow> [] | Some x \<Rightarrow> [x]) @ ols, l @ ls, err)))"

section \<open>The page orchestrator: \<^verbatim>\<open>process_file\<close>\<close>

text \<open>
  A \<^verbatim>\<open>collections.defaultdict(list)\<close> as an association list with distinct keys:
  \<^verbatim>\<open>d[k].append(v)\<close> and \<^verbatim>\<open>d.pop(k, [])\<close>. The dictionary is empty when the list is.
\<close>

definition dd_append :: "'k \<Rightarrow> 'v \<Rightarrow> ('k \<times> 'v list) list \<Rightarrow> ('k \<times> 'v list) list" where
  "dd_append k v d =
     AList.update k ((case map_of d k of None \<Rightarrow> [] | Some vs \<Rightarrow> vs) @ [v]) d"

definition dd_pop :: "'k \<Rightarrow> ('k \<times> 'v list) list \<Rightarrow> 'v list \<times> ('k \<times> 'v list) list" where
  "dd_pop k d = (case map_of d k of None \<Rightarrow> ([], d) | Some vs \<Rightarrow> (vs, AList.delete k d))"

record 'g PDFPage =
  pageid :: nat
  page_annots :: pdfobj
  layout :: "'g LTItem"

record 'g PDFDocument =
  raw_outlines :: "(pdfobj \<times> pdfobj \<times> pdfobj) list"
  outlines_error :: "error option"
  pages :: "'g PDFPage list"

text \<open>The state of the loop over the pages.\<close>

record 'b progress =
  outlines_by_objid :: "(nat \<times> Outline list) list"
  outlines_by_pageno :: "(pdfobj \<times> Outline list) list"
  allannots :: "'b Annotation list"
  alloutlines :: "Outline list"
  device :: "'b RectExtractor"
  logged :: "logmsg list"

text \<open>Step 1 of \<^verbatim>\<open>process_file\<close>: an outline goes into one of the two dictionaries.\<close>

definition file_outline :: "Outline \<Rightarrow> 'b progress \<Rightarrow> 'b progress" where
  "file_outline ol st =
     (case pageref ol of
        PDFObjRef n \<Rightarrow> st\<lparr>outlines_by_objid := dd_append n ol (outlines_by_objid st)\<rparr>
      | other \<Rightarrow> st\<lparr>outlines_by_pageno := dd_append other ol (outlines_by_pageno st)\<rparr>)"

text \<open>
  \<^verbatim>\<open>pdftypes.resolve1(pdfpage.annots) if pdfpage.annots else []\<close>, as the sequence the
  \<^verbatim>\<open>for\<close> loop iterates over: a list gives its elements, a dictionary its keys, a byte
  string its bytes; nothing else is iterable.
\<close>

definition annots_iter :: "('b, 'g) extern \<Rightarrow> pdfobj \<Rightarrow> error + pdfobj list" where
  "annots_iter X a =
     (if truthy a
      then (case resolve1 X a of
              PList xs \<Rightarrow> Inr xs
            | PDict kvs \<Rightarrow> Inr (map (\<lambda>kv. PBytes (fst kv)) kvs)
            | PBytes b \<Rightarrow> Inr (map (\<lambda>c. PInt (int (of_char c))) b)
            | other \<Rightarrow> Inl TypeError)
      else Inr [])"

text \<open>The loop that constructs the \<^verbatim>\<open>Annotation\<close> objects of a page.\<close>

fun make_annots ::
  "('b, 'g) extern \<Rightarrow> 'b Page \<Rightarrow> pdfobj list \<Rightarrow> error + ('b Annotation list \<times> logmsg list)" where
  "make_annots X pg [] = Inr ([], [])"
| "make_annots X pg (PDFObjRef n # pas) =
     bind_err (mkannotation X (resolve_ref X n) pg) (\<lambda>annot.
     bind_err (make_annots X pg pas) (\<lambda>(as, l).
     Inr ((case annot of None \<Rightarrow> [] | Some a \<Rightarrow> [a]) @ as, l)))"
| "make_annots X pg (pa # pas) =
     bind_err (make_annots X pg pas) (\<lambda>(as, l).
     Inr (as, Warning_unknown_annotation pa # l))"

text \<open>
  One round of the loop over the pages (step 2 of \<^verbatim>\<open>process_file\<close>). The page object that
  the source sorts after rendering is the one the device holds since \<^verbatim>\<open>start_page\<close>, so
  the device always has a page there. \<^verbatim>\<open>interpreter.process_page\<close> hands the layout of the
  page to \<^verbatim>\<open>receive_layout\<close>.
\<close>

definition process_page ::
  "('b, 'g) extern \<Rightarrow> nat \<Rightarrow> 'g PDFPage \<Rightarrow> 'b progress \<Rightarrow> error + 'b progress" where
  "process_page X n pdfpage st =
     (let pg0 = \<lparr>pageno = n, objid = pageid pdfpage, annots = [], outlines = []\<rparr>;
          by_id = dd_pop (objid pg0) (outlines_by_objid st);
          by_no = dd_pop (PInt (int n)) (outlines_by_pageno st);
          pg1 = pg0\<lparr>outlines := map (Outline_resolve pg0) (fst by_id @ fst by_no)\<rparr>
      in
      bind_err (annots_iter X (page_annots pdfpage)) (\<lambda>pas.
      bind_err (make_annots X pg1 pas) (\<lambda>(as, l).
      bind_err (receive_layout (hit_item X) (layout pdfpage)
                  (start_page (pg1\<lparr>annots := as\<rparr>) (device st))) (\<lambda>dev.
      case page dev of
        None \<Rightarrow> Inl AssertionError
      | Some pg \<Rightarrow>
          Inr (st\<lparr>outlines_by_objid := snd by_id,
                  outlines_by_pageno := snd by_no,
                  allannots := allannots st @ sort_annots X (annots pg),
                  alloutlines := alloutlines st @ sort_outlines X (outlines pg),
                  device := dev,
                  logged := logged st @ l\<rparr>)))))"

fun process_pages ::
  "('b, 'g) extern \<Rightarrow> nat \<Rightarrow> 'g PDFPage list \<Rightarrow> 'b progress \<Rightarrow> error + 'b progress" where
  "process_pages X n [] st = Inr st"
| "process_pages X n (p # ps) st =
     bind_err (process_page X n p st) (\<lambda>st1. process_pages X (Suc n) ps st1)"

definition init_progress :: "'b progress" where
  "init_progress =
     \<lparr>outlines_by_objid = [], outlines_by_pageno = [], allannots = [], alloutlines = [],
      device = \<lparr>page = None, pageseq = 0, lasthit = {}, curline = {}\<rparr>, logged = []\<rparr>"

text \<open>What the \<^verbatim>\<open>try\<close> statement around step 1 logs for the exception that ended it.\<close>

fun outlines_failure :: "error option \<Rightarrow> logmsg list" where
  "outlines_failure None = []"
| "outlines_failure (Some PDFNoOutlines) = [Info_no_outlines]"
| "outlines_failure (Some e) = [Warning_failed_outlines e]"

definition process_file ::
  "('b, 'g) extern \<Rightarrow> 'g PDFDocument \<Rightarrow>
   error + ('b Annotation list \<times> Outline list \<times> logmsg list)" where
  "process_file X doc =
     (case get_outlines X (raw_outlines doc) (outlines_error doc) of
        (ols, l, err) \<Rightarrow>
          bind_err (process_pages X 0 (pages doc) (fold file_outline ols init_progress)) (\<lambda>st.
          if outlines_by_pageno st = [] \<and> outlines_by_objid st = []
          then Inr (allannots st, alloutlines st, l @ outlines_failure err @ logged st)
          else Inl AssertionError))"

text \<open>A page reference that some page of the document answers: its object id or its index.\<close>

fun page_appears :: "pdfobj \<Rightarrow> 'g PDFPage list \<Rightarrow> bool" where
  "page_appears (PDFObjRef n) ps = list_ex (\<lambda>p. pageid p = n) ps"
| "page_appears (PInt k) ps = (0 \<le> k \<and> k < int (length ps))"
| "page_appears other ps = False"

text \<open>An outline filed under the key is still pending.\<close>

fun pending :: "pdfobj \<Rightarrow> 'b progress \<Rightarrow> bool" where
  "pending (PDFObjRef n) st = (map_of (outlines_by_objid st) n \<noteq> None)"
| "pending other st = (map_of (outlines_by_pageno st) other \<noteq> None)"



section \<open>Worked examples\<close>

subsection \<open>A worked page\<close>

text \<open>
  A page with three highlights: the first covers region 1, the second has an empty
  BoxCollection, the third covers regions 1 and 2. A character is in a region when its
  geometry is the region's number. The layout is one text box of two lines, \<open>AB\<close> and
  \<open>CD\<close>, each ended by a line break.
\<close>

definition example_annot :: "nat list option \<Rightarrow> nat Annotation" where
  "example_annot bs =
     \<lparr>subtype = ''Highlight'', boxes = bs, contents = None, author = None, created = None,
      text' = [], startpos = None\<rparr>"

definition example_page :: "nat Page" where
  "example_page =
     \<lparr>pageno = 0, objid = 1,
      annots = [example_annot (Some [1]), example_annot (Some []), example_annot (Some [1, 2])],
      outlines = []\<rparr>"

definition example_state :: "nat RectExtractor" where
  "example_state = \<lparr>page = Some example_page, pageseq = 0, lasthit = {}, curline = {}\<rparr>"

definition example_layout :: "nat LTItem" where
  "example_layout =
     LTContainer LTOtherContainer 0
       [LTContainer LTTextBox 9
          [LTContainer LTTextLine 8 [LTChar 1 ''A'', LTChar 1 ''B'', LTAnno newline],
           LTContainer LTTextLine 7 [LTChar 1 ''C'', LTChar 1 ''D'', LTAnno newline]]]"

text \<open>
  Two text lines with no text box around them, the second still open after \<open>CD\<close>; and a
  line \<open>AB\<close>, whose \<open>B\<close> lies in region 2 only, ended by a line break and followed by
  a line that starts with a space.
\<close>

definition example_two_lines :: "nat LTItem" where
  "example_two_lines =
     LTContainer LTOtherContainer 0
       [LTContainer LTTextLine 8 [LTChar 1 ''A'', LTChar 1 ''B'', LTAnno newline],
        LTContainer LTTextLine 7 [LTChar 1 ''C'', LTChar 1 ''D'']]"

definition example_space_after_break :: "nat LTItem" where
  "example_space_after_break =
     LTContainer LTOtherContainer 0
       [LTContainer LTTextLine 8 [LTChar 1 ''A'', LTChar 2 ''B'', LTAnno newline],
        LTContainer LTTextLine 7 [LTAnno '' '']]"

subsection \<open>Worked documents\<close>

text \<open>
  Collaborators for the examples: references are not chased, object 7 is an annotation
  dictionary with no subtype, object 8 one of subtype \<open>FreeText\<close>; nothing is sorted.
  The documents have one empty page each: one with an outline to page index 5, one with
  the \<open>FreeText\<close> annotation, one with the annotation without subtype, and one whose
  first outline destination is too short to have a display mode.
\<close>

definition example_extern :: "(nat, nat) extern" where
  "example_extern =
     \<lparr>resolve1 = (\<lambda>x. x),
      resolve_ref = (\<lambda>n. if n = 7 then PDict [(''Rect'', PList [])]
                         else if n = 8 then PDict [(''Subtype'', PSLiteral ''FreeText'')]
                         else PNone),
      decode_text = (\<lambda>x. case x of PBytes b \<Rightarrow> Inr b | other \<Rightarrow> Inl TypeError),
      get_dest = (\<lambda>n. Inl KeyError),
      cleanup_text = (\<lambda>t. t),
      decode_datetime = (\<lambda>t. None),
      mk_boxes = (\<lambda>q r. None),
      hit_item = (=),
      sort_annots = (\<lambda>xs. xs),
      sort_outlines = (\<lambda>xs. xs)\<rparr>"

definition example_dangling :: "nat PDFDocument" where
  "example_dangling =
     \<lparr>raw_outlines = [(PBytes ''Far'', PList [PInt 5, PSLiteral ''XYZ'', PInt 0, PInt 0], PNone)],
      outlines_error = None,
      pages = [\<lparr>pageid = 1, page_annots = PNone, layout = LTContainer LTOtherContainer 0 []\<rparr>]\<rparr>"


definition example_no_subtype :: "nat PDFDocument" where
  "example_no_subtype =
     \<lparr>raw_outlines = [], outlines_error = None,
      pages = [\<lparr>pageid = 1, page_annots = PList [PDFObjRef 7],
                layout = LTContainer LTOtherContainer 0 []\<rparr>]\<rparr>"


section \<open>Properties of the binding engine\<close>

subsection \<open>Rendering a tree is running its primitive stream\<close>

lemma run_append:
  "run hit (es1 @ es2) s = (case run hit es1 s of Inl e \<Rightarrow> Inl e | Inr s1 \<Rightarrow> run hit es2 s1)"
  by (induction es1 arbitrary: s) (auto split: sum.splits)

lemma run_single: "run hit [e] s = step hit e s"
  by (cases "step hit e s") simp_all

lemma render_run:
  "render hit item s = run hit (primitives item) s"
  "render_children hit items s = run hit (primitives_list items) s"
proof (induction hit item s and hit items s rule: render_render_children.induct)
  case (1 hit k g cs s)
  show ?case
  proof (cases "(if k = LTTextLine then update_pageseq g s else Inr s)")
    case (Inl e)
    then show ?thesis by (cases k) (simp_all add: run_append run_single)
  next
    case (Inr s1)
    from "1.IH"[OF Inr] have ih: "render_children hit cs s1 = run hit (primitives_list cs) s1" .
    show ?thesis using Inr ih
      by (cases k) (simp_all add: run_append run_single split: sum.splits)
  qed
next
  case (6 hit c cs s)
  then show ?case by (simp add: run_append split: sum.splits)
qed (simp_all add: run_single del: run.simps(2))

subsection \<open>The effect of one primitive\<close>

lemma capture_at_length: "length (capture_at S t as) = length as"
  by (simp add: capture_at_def)

lemma capture_at_nth:
  "i < length as \<Longrightarrow> capture_at S t as ! i = (if i \<in> S then capture t (as ! i) else as ! i)"
  by (simp add: capture_at_def)

lemma boxes_capture: "boxes (capture t a) = boxes a"
  by (simp add: capture_def)

lemma text_capture: "text' (capture t a) = text' a @ t"
  by (simp add: capture_def)

lemma boxes_stamp_annot: "boxes (stamp_annot g n a) = boxes a"
  by (simp add: stamp_annot_def split: option.splits)

lemma text_stamp_annot: "text' (stamp_annot g n a) = text' a"
  by (simp add: stamp_annot_def split: option.splits)

lemma hitset_iff: "i \<in> hitset hit g as \<longleftrightarrow> i < length as \<and> box_hit hit g (as ! i)"
  by (auto simp: hitset_def)

lemma box_hit_boxes: "boxes a = boxes a' \<Longrightarrow> box_hit hit g a = box_hit hit g a'"
  by (simp add: box_hit_def)

lemma hitset_cong:
  "map boxes as = map boxes as' \<Longrightarrow> hitset hit g as = hitset hit g as'"
proof -
  assume m: "map boxes as = map boxes as'"
  then have l: "length as = length as'" by (rule map_eq_imp_length_eq)
  have "\<And>i. i < length as \<Longrightarrow> boxes (as ! i) = boxes (as' ! i)"
    using m l by (metis nth_map)
  then show ?thesis using l
    by (auto simp: hitset_iff box_hit_def)
qed

lemma boxes_capture_at: "map boxes (capture_at S t as) = map boxes as"
  by (rule nth_equalityI) (simp_all add: capture_at_length capture_at_nth boxes_capture)

lemma boxes_stamp_map: "map boxes (map (stamp_annot g n) as) = map boxes as"
  by (simp add: boxes_stamp_annot comp_def)

lemma step_LineBoundary:
  "ready s \<Longrightarrow> \<exists>s'. step hit (LineBoundary g) s = Inr s' \<and> ready s' \<and>
     pageseq s' = pageseq s + 1 \<and> lasthit s' = lasthit s \<and> curline s' = curline s \<and>
     the_annots s' = map (stamp_annot g (pageseq s + 1)) (the_annots s)"
  by (auto simp: ready_def the_annots_def update_pageseq_def Let_def stamp_outline_def
      list_all_iff split: option.splits)

lemma step_Character:
  "ready s \<Longrightarrow> \<exists>s'. step hit (Character g t) s = Inr s' \<and> ready s' \<and>
     pageseq s' = pageseq s \<and> lasthit s' = hitset hit g (the_annots s) \<and>
     curline s' = curline s \<union> hitset hit g (the_annots s) \<and>
     the_annots s' = capture_at (hitset hit g (the_annots s)) t (the_annots s)"
  by (auto simp: ready_def the_annots_def testboxes_def capture_all_def Let_def
      split: option.splits)

lemma step_TextBoxEnd:
  "ready s \<Longrightarrow> \<exists>s'. step hit (TextBoxEnd g) s = Inr s' \<and> ready s' \<and>
     pageseq s' = pageseq s \<and> lasthit s' = hitset hit g (the_annots s) \<and>
     curline s' = {} \<and>
     the_annots s' = capture_at (curline s \<union> hitset hit g (the_annots s)) newline (the_annots s)"
  by (auto simp: ready_def the_annots_def testboxes_def capture_all_def capture_newline_def Let_def
      split: option.splits)

lemma step_Whitespace_newline:
  "ready s \<Longrightarrow> \<exists>s'. step hit (Whitespace newline) s = Inr s' \<and> ready s' \<and>
     pageseq s' = pageseq s \<and> lasthit s' = lasthit s \<and> curline s' = {} \<and>
     the_annots s' = capture_at (curline s) newline (the_annots s)"
  by (auto simp: ready_def the_annots_def capture_all_def capture_newline_def
      split: option.splits)

lemma step_Whitespace_other:
  "ready s \<Longrightarrow> t \<noteq> newline \<Longrightarrow> \<exists>s'. step hit (Whitespace t) s = Inr s' \<and> ready s' \<and>
     pageseq s' = pageseq s \<and> lasthit s' = lasthit s \<and> curline s' = curline s \<and>
     the_annots s' = capture_at (lasthit s) t (the_annots s)"
  by (auto simp: ready_def the_annots_def capture_all_def
      split: option.splits)

lemma step_ready:
  "ready s \<Longrightarrow> \<exists>s'. step hit e s = Inr s' \<and> ready s' \<and>
     map boxes (the_annots s') = map boxes (the_annots s)"
proof (cases e)
  case (LineBoundary g)
  assume "ready s"
  from step_LineBoundary[OF this, of hit g] show ?thesis
    using LineBoundary by (auto simp: boxes_stamp_annot simp del: step.simps)
next
  case (TextBoxEnd g)
  assume "ready s"
  from step_TextBoxEnd[OF this, of hit g] show ?thesis
    using TextBoxEnd by (auto simp: boxes_capture_at simp del: step.simps)
next
  case (Character g t)
  assume "ready s"
  from step_Character[OF this, of hit g t] show ?thesis
    using Character by (auto simp: boxes_capture_at simp del: step.simps)
next
  case (Whitespace t)
  assume r: "ready s"
  show ?thesis
  proof (cases "t = newline")
    case True
    from step_Whitespace_newline[OF r, of hit] show ?thesis
      using Whitespace True by (auto simp: boxes_capture_at simp del: step.simps)
  next
    case False
    from step_Whitespace_other[OF r False, of hit] show ?thesis
      using Whitespace by (auto simp: boxes_capture_at simp del: step.simps)
  qed
qed

lemma run_invariant:
  assumes inv: "\<And>e s s'. e \<in> set es \<Longrightarrow> ready s \<Longrightarrow> P s \<Longrightarrow> step hit e s = Inr s' \<Longrightarrow> P s'"
    and "ready s" and "P s"
  shows "\<exists>s'. run hit es s = Inr s' \<and> ready s' \<and> P s' \<and>
     map boxes (the_annots s') = map boxes (the_annots s)"
  using assms
proof (induction es arbitrary: s)
  case Nil
  then show ?case by simp
next
  case (Cons e es)
  from step_ready[OF Cons.prems(2), of hit e] obtain s1 where
    s1: "step hit e s = Inr s1" "ready s1" "map boxes (the_annots s1) = map boxes (the_annots s)"
    by auto
  have p1: "P s1" using Cons.prems(1)[of e s s1] Cons.prems(2,3) s1(1) by simp
  have "\<And>e s s'. e \<in> set es \<Longrightarrow> ready s \<Longrightarrow> P s \<Longrightarrow> step hit e s = Inr s' \<Longrightarrow> P s'"
    using Cons.prems(1) by (meson list.set_intros(2))
  from Cons.IH[OF this s1(2) p1] show ?case using s1 by auto
qed

lemma run_ready:
  "ready s \<Longrightarrow> \<exists>s'. run hit es s = Inr s' \<and> ready s' \<and>
     map boxes (the_annots s') = map boxes (the_annots s)"
  using run_invariant[of es "\<lambda>s. True" hit s] by simp

lemma length_of_boxes:
  "map boxes as' = map boxes as \<Longrightarrow> length as' = length as"
  by (rule map_eq_imp_length_eq)

lemma nth_of_boxes:
  "map boxes as' = map boxes as \<Longrightarrow> i < length as \<Longrightarrow> boxes (as' ! i) = boxes (as ! i)"
  by (metis length_of_boxes nth_map)

lemma no_boxes_not_hit:
  "boxes a = None \<or> boxes a = Some [] \<Longrightarrow> \<not> box_hit hit g a"
  by (auto simp: box_hit_def)

text \<open>The text an annotation holds after one primitive.\<close>

lemma step_text:
  assumes "ready s" and "i < length (the_annots s)"
  shows "\<exists>s'. step hit e s = Inr s' \<and> ready s' \<and>
     map boxes (the_annots s') = map boxes (the_annots s) \<and>
     text' (the_annots s' ! i) = text' (the_annots s ! i) @
       (case e of
          LineBoundary g \<Rightarrow> []
        | TextBoxEnd g \<Rightarrow>
            if i \<in> curline s \<or> box_hit hit g (the_annots s ! i) then newline else []
        | Character g t \<Rightarrow> if box_hit hit g (the_annots s ! i) then t else []
        | Whitespace t \<Rightarrow>
            if t = newline then (if i \<in> curline s then newline else [])
            else (if i \<in> lasthit s then t else [])) \<and>
     lasthit s' =
       (case e of
          LineBoundary g \<Rightarrow> lasthit s
        | TextBoxEnd g \<Rightarrow> hitset hit g (the_annots s)
        | Character g t \<Rightarrow> hitset hit g (the_annots s)
        | Whitespace t \<Rightarrow> lasthit s) \<and>
     curline s' =
       (case e of
          LineBoundary g \<Rightarrow> curline s
        | TextBoxEnd g \<Rightarrow> {}
        | Character g t \<Rightarrow> curline s \<union> hitset hit g (the_annots s)
        | Whitespace t \<Rightarrow> if t = newline then {} else curline s)"
proof (cases e)
  case (LineBoundary g)
  from step_LineBoundary[OF assms(1), of hit g] show ?thesis
    using LineBoundary assms(2)
    by (auto simp: boxes_stamp_annot text_stamp_annot simp del: step.simps)
next
  case (TextBoxEnd g)
  from step_TextBoxEnd[OF assms(1), of hit g] show ?thesis
    using TextBoxEnd assms(2)
    by (auto simp: boxes_capture_at capture_at_nth text_capture hitset_iff simp del: step.simps)
next
  case (Character g t)
  from step_Character[OF assms(1), of hit g t] show ?thesis
    using Character assms(2)
    by (auto simp: boxes_capture_at capture_at_nth text_capture hitset_iff simp del: step.simps)
next
  case (Whitespace t)
  show ?thesis
  proof (cases "t = newline")
    case True
    from step_Whitespace_newline[OF assms(1), of hit] show ?thesis
      using Whitespace True assms(2)
      by (auto simp: boxes_capture_at capture_at_nth text_capture simp del: step.simps)
  next
    case False
    from step_Whitespace_other[OF assms(1) False, of hit] show ?thesis
      using Whitespace False assms(2)
      by (auto simp: boxes_capture_at capture_at_nth text_capture simp del: step.simps)
  qed
qed

subsection \<open>Annotations without boxes\<close>

lemma no_boxes_step:
  assumes "ready s" and "i < length (the_annots s)" and "no_boxes (the_annots s ! i)"
    and "i \<notin> lasthit s" and "i \<notin> curline s" and "step hit e s = Inr s'"
  shows "i < length (the_annots s') \<and> no_boxes (the_annots s' ! i) \<and>
     i \<notin> lasthit s' \<and> i \<notin> curline s' \<and>
     text' (the_annots s' ! i) = text' (the_annots s ! i)"
proof -
  have nh: "\<And>g. \<not> box_hit hit g (the_annots s ! i)"
    using assms(3) by (simp add: no_boxes_def no_boxes_not_hit)
  from step_text[OF assms(1,2), of hit e] assms(6) have
    b: "map boxes (the_annots s') = map boxes (the_annots s)" and
    t: "text' (the_annots s' ! i) = text' (the_annots s ! i) @
       (case e of
          LineBoundary g \<Rightarrow> []
        | TextBoxEnd g \<Rightarrow>
            if i \<in> curline s \<or> box_hit hit g (the_annots s ! i) then newline else []
        | Character g t \<Rightarrow> if box_hit hit g (the_annots s ! i) then t else []
        | Whitespace t \<Rightarrow>
            if t = newline then (if i \<in> curline s then newline else [])
            else (if i \<in> lasthit s then t else []))" and
    l: "lasthit s' =
       (case e of
          LineBoundary g \<Rightarrow> lasthit s
        | TextBoxEnd g \<Rightarrow> hitset hit g (the_annots s)
        | Character g t \<Rightarrow> hitset hit g (the_annots s)
        | Whitespace t \<Rightarrow> lasthit s)" and
    c: "curline s' =
       (case e of
          LineBoundary g \<Rightarrow> curline s
        | TextBoxEnd g \<Rightarrow> {}
        | Character g t \<Rightarrow> curline s \<union> hitset hit g (the_annots s)
        | Whitespace t \<Rightarrow> if t = newline then {} else curline s)"
    by auto
  have len: "i < length (the_annots s')" using length_of_boxes[OF b] assms(2) by simp
  have nb: "no_boxes (the_annots s' ! i)"
    using nth_of_boxes[OF b assms(2)] assms(3) by (simp add: no_boxes_def)
  have "text' (the_annots s' ! i) = text' (the_annots s ! i)"
    using t nh assms(4,5) by (cases e) simp_all
  moreover have "i \<notin> lasthit s'"
    using l nh assms(4) by (cases e) (simp_all add: hitset_iff)
  moreover have "i \<notin> curline s'"
    using c nh assms(5) by (cases e) (simp_all add: hitset_iff)
  ultimately show ?thesis using len nb by simp
qed

lemma no_boxes_run:
  assumes "ready s" and "i < length (the_annots s)" and "no_boxes (the_annots s ! i)"
    and "i \<notin> lasthit s" and "i \<notin> curline s"
  shows "\<exists>s'. run hit es s = Inr s' \<and> i \<notin> lasthit s' \<and> i \<notin> curline s' \<and>
     text' (the_annots s' ! i) = text' (the_annots s ! i)"
proof -
  define P where "P = (\<lambda>u :: 'a RectExtractor. i < length (the_annots u) \<and> no_boxes (the_annots u ! i) \<and>
     i \<notin> lasthit u \<and> i \<notin> curline u \<and> text' (the_annots u ! i) = text' (the_annots s ! i))"
  have "\<And>e u u'. e \<in> set es \<Longrightarrow> ready u \<Longrightarrow> P u \<Longrightarrow> step hit e u = Inr u' \<Longrightarrow> P u'"
    unfolding P_def using no_boxes_step by metis
  moreover note assms(1)
  moreover have "P s" unfolding P_def using assms by simp
  ultimately have "\<exists>s'. run hit es s = Inr s' \<and> ready s' \<and> P s' \<and>
     map boxes (the_annots s') = map boxes (the_annots s)"
    by (rule run_invariant)
  then show ?thesis unfolding P_def by auto
qed

lemma ready_reset: "ready (s\<lparr>lasthit := {}, curline := {}\<rparr>) = ready s"
  by (simp add: ready_def)

lemma the_annots_reset: "the_annots (s\<lparr>lasthit := {}, curline := {}\<rparr>) = the_annots s"
  by (simp add: the_annots_def)

text \<open>
  C4. An annotation whose BoxCollection is empty or absent is in no hit set, whatever the
  item tested; while any primitive stream is rendered from the start of a page it stays out
  of the last-hit and current-line sets and its captured text stays what it was (empty for
  a new annotation): no character, whitespace or newline is appended to it.
\<close>

theorem no_boxes_no_text:
  assumes "ready s" and "i < length (the_annots s)" and "no_boxes (the_annots s ! i)"
  shows "(\<forall>g. i \<notin> hitset hit g (the_annots s)) \<and>
     (\<exists>s'. run hit es (s\<lparr>lasthit := {}, curline := {}\<rparr>) = Inr s' \<and>
        i \<notin> lasthit s' \<and> i \<notin> curline s' \<and>
        text' (the_annots s' ! i) = text' (the_annots s ! i)) \<and>
     (\<exists>s'. receive_layout hit item s = Inr s' \<and>
        text' (the_annots s' ! i) = text' (the_annots s ! i))"
proof -
  let ?s0 = "s\<lparr>lasthit := {}, curline := {}\<rparr>"
  have a: "\<forall>g. i \<notin> hitset hit g (the_annots s)"
    using assms(3) by (simp add: hitset_iff no_boxes_def no_boxes_not_hit)
  have r: "ready ?s0" using assms(1) by (simp add: ready_reset)
  have i: "i < length (the_annots ?s0)" using assms(2) by (simp add: the_annots_reset)
  have n: "no_boxes (the_annots ?s0 ! i)" using assms(3) by (simp add: the_annots_reset)
  have e: "i \<notin> lasthit ?s0" "i \<notin> curline ?s0" by simp_all
  have b: "\<And>es. \<exists>s'. run hit es ?s0 = Inr s' \<and> i \<notin> lasthit s' \<and> i \<notin> curline s' \<and>
        text' (the_annots s' ! i) = text' (the_annots s ! i)"
    using no_boxes_run[OF r i n e] by (simp add: the_annots_reset)
  have c: "\<exists>s'. receive_layout hit item s = Inr s' \<and>
        text' (the_annots s' ! i) = text' (the_annots s ! i)"
    using b[of "primitives item"] by (auto simp: receive_layout_def render_run)
  show ?thesis using a b c by blast
qed

theorem no_boxes_no_text_witness:
  "ready example_state \<and> 1 < length (the_annots example_state) \<and>
   no_boxes (the_annots example_state ! 1) \<and>
   (\<exists>s'. receive_layout (=) example_layout example_state = Inr s' \<and>
      text' (the_annots s' ! 1) = [])"
  using no_boxes_no_text [of example_state 1 "(=)" "[]" example_layout]
  by (simp add: ready_def the_annots_def no_boxes_def example_state_def example_page_def
      example_annot_def)

lemmas example_defs =
  ready_def the_annots_def example_state_def example_page_def example_annot_def

lemmas engine_defs =
  update_pageseq_def stamp_annot_def testboxes_def hitset_def box_hit_def capture_all_def
  capture_at_def capture_def capture_newline_def Let_def

subsection \<open>The last-hit set\<close>

lemma box_hit_of_boxes:
  "map boxes as' = map boxes as \<Longrightarrow> i < length as \<Longrightarrow>
   box_hit hit g (as' ! i) = box_hit hit g (as ! i)"
  using nth_of_boxes[of as' as i] by (simp add: box_hit_def)

lemma step_lasthit_kept:
  assumes "ready s" and "\<not> hit_tests e" and "step hit e s = Inr s'"
  shows "lasthit s' = lasthit s"
proof -
  show ?thesis
  proof (cases e)
    case (LineBoundary g)
    from step_LineBoundary[OF assms(1), of hit g] assms(3) LineBoundary show ?thesis by auto
  next
    case (Whitespace t)
    show ?thesis
    proof (cases "t = newline")
      case True
      from step_Whitespace_newline[OF assms(1), of hit] assms(3) Whitespace True
      show ?thesis by auto
    next
      case False
      from step_Whitespace_other[OF assms(1) False, of hit] assms(3) Whitespace
      show ?thesis by auto
    qed
  qed (use assms(2) in simp_all)
qed

lemma run_lasthit_kept:
  assumes "ready s" and "list_all (\<lambda>e. \<not> hit_tests e) es"
  shows "\<exists>s'. run hit es s = Inr s' \<and> ready s' \<and> lasthit s' = lasthit s \<and>
     map boxes (the_annots s') = map boxes (the_annots s)"
proof -
  have "\<And>e u u'. e \<in> set es \<Longrightarrow> ready u \<Longrightarrow> lasthit u = lasthit s \<Longrightarrow>
      step hit e u = Inr u' \<Longrightarrow> lasthit u' = lasthit s"
    using assms(2) step_lasthit_kept by (metis (mono_tags, lifting) list_all_iff)
  moreover note assms(1)
  moreover have "lasthit s = lasthit s" ..
  ultimately show ?thesis by (rule run_invariant)
qed

text \<open>
  C10. The newline flush empties the current-line set and leaves the last-hit set as it was.
  So when a whitespace primitive other than a line break follows a character, with line
  breaks, other whitespace and line boundaries but no character and no text-box end in
  between, its text is appended to the text of exactly the annotations with a box that the
  character hit, and the text of every other annotation stays as it was.
\<close>

theorem newline_flush_keeps_lasthit:
  assumes "ready s" and "primitives item = pre @ Character g c # mid @ [Whitespace t]"
    and "t \<noteq> newline" and "list_all (\<lambda>e. \<not> hit_tests e) mid"
  shows "lasthit (capture_newline s) = lasthit s \<and> curline (capture_newline s) = {} \<and>
     (\<exists>s1 s'. run hit (pre @ Character g c # mid) s = Inr s1 \<and>
        render hit item s = Inr s' \<and>
        the_annots s' = capture_at (hitset hit g (the_annots s)) t (the_annots s1) \<and>
        length (the_annots s1) = length (the_annots s) \<and>
        length (the_annots s') = length (the_annots s) \<and>
        (\<forall>i. i < length (the_annots s) \<longrightarrow>
           text' (the_annots s' ! i) =
             text' (the_annots s1 ! i) @
             (if box_hit hit g (the_annots s ! i) then t else [])))"
proof -
  have a: "lasthit (capture_newline s) = lasthit s" "curline (capture_newline s) = {}"
    by (simp_all add: capture_newline_def capture_all_def)
  from run_ready[OF assms(1), of hit pre] obtain s1 where
    s1: "run hit pre s = Inr s1" "ready s1" "map boxes (the_annots s1) = map boxes (the_annots s)"
    by auto
  from step_ready[OF s1(2), of hit "Character g c"] obtain s2 where
    s2: "step hit (Character g c) s1 = Inr s2" "ready s2"
      "map boxes (the_annots s2) = map boxes (the_annots s1)"
    by auto
  from step_Character[OF s1(2), of hit g c] s2(1) have
    l2: "lasthit s2 = hitset hit g (the_annots s1)"
    by auto
  from run_lasthit_kept[OF s2(2) assms(4), of hit] obtain s3 where
    s3: "run hit mid s2 = Inr s3" "ready s3" "lasthit s3 = lasthit s2"
      "map boxes (the_annots s3) = map boxes (the_annots s2)"
    by auto
  from step_Whitespace_other[OF s3(2) assms(3), of hit] obtain s4 where
    s4: "step hit (Whitespace t) s3 = Inr s4"
      "the_annots s4 = capture_at (lasthit s3) t (the_annots s3)"
    by auto
  have h: "lasthit s3 = hitset hit g (the_annots s)"
    using s3(3) l2 hitset_cong[OF s1(3)] by simp
  have r3: "run hit (pre @ Character g c # mid) s = Inr s3"
    using s1(1) s2(1) s3(1) by (simp add: run_append del: step.simps)
  have "run hit ((pre @ Character g c # mid) @ [Whitespace t]) s = Inr s4"
    using r3 s4(1) by (simp only: run_append run_single sum.case)
  then have r4: "render hit item s = Inr s4"
    using assms(2) by (simp add: render_run)
  have c4: "the_annots s4 = capture_at (hitset hit g (the_annots s)) t (the_annots s3)"
    using s4(2) h by simp
  have len3: "length (the_annots s3) = length (the_annots s)"
    using length_of_boxes[OF s3(4)] length_of_boxes[OF s2(3)] length_of_boxes[OF s1(3)]
    by simp
  have len4: "length (the_annots s4) = length (the_annots s)"
    using c4 len3 by (simp add: capture_at_length)
  have tx: "\<forall>i. i < length (the_annots s) \<longrightarrow>
           text' (the_annots s4 ! i) =
             text' (the_annots s3 ! i) @
             (if box_hit hit g (the_annots s ! i) then t else [])"
    using c4 len3 by (simp add: capture_at_nth text_capture hitset_iff)
  have inner: "\<exists>s1 s'. run hit (pre @ Character g c # mid) s = Inr s1 \<and>
        render hit item s = Inr s' \<and>
        the_annots s' = capture_at (hitset hit g (the_annots s)) t (the_annots s1) \<and>
        length (the_annots s1) = length (the_annots s) \<and>
        length (the_annots s') = length (the_annots s) \<and>
        (\<forall>i. i < length (the_annots s) \<longrightarrow>
           text' (the_annots s' ! i) =
             text' (the_annots s1 ! i) @
             (if box_hit hit g (the_annots s ! i) then t else []))"
    by (rule exI[of _ s3], rule exI[of _ s4]) (intro conjI r3 r4 c4 len3 len4 tx)
  show ?thesis by (intro conjI a inner)
qed

theorem newline_flush_keeps_lasthit_witness:
  "ready example_state \<and>
   primitives example_space_after_break =
     [LineBoundary 8, Character 1 ''A''] @ Character 2 ''B'' #
     [Whitespace newline, LineBoundary 7] @ [Whitespace '' ''] \<and>
   '' '' \<noteq> newline \<and>
   list_all (\<lambda>e. \<not> hit_tests e) [Whitespace newline, LineBoundary (7 :: nat)] \<and>
   (\<exists>s1. run (=) ([LineBoundary 8, Character 1 ''A''] @ Character 2 ''B'' #
                  [Whitespace newline, LineBoundary 7]) example_state = Inr s1 \<and>
      map text' (the_annots s1) = [''A'' @ newline, [], ''AB'' @ newline] \<and>
      lasthit s1 = {2} \<and> curline s1 = {}) \<and>
   (\<exists>s'. render (=) example_space_after_break example_state = Inr s' \<and>
      map text' (the_annots s') = [''A'' @ newline, [], ''AB'' @ newline @ '' ''])"
proof -
  have h1: "ready example_state" by (simp add: example_defs)
  have h2: "primitives example_space_after_break =
     [LineBoundary 8, Character 1 ''A''] @ Character 2 ''B'' #
     [Whitespace newline, LineBoundary 7] @ [Whitespace '' '']"
    by (simp add: example_space_after_break_def)
  have h3: "'' '' \<noteq> newline" by simp
  have h4: "list_all (\<lambda>e. \<not> hit_tests e) [Whitespace newline, LineBoundary (7 :: nat)]"
    by simp
  from newline_flush_keeps_lasthit [OF h1 h2 h3 h4, of "(=)"] obtain s1 s' where
    r: "run (=) ([LineBoundary 8, Character 1 ''A''] @ Character 2 ''B'' #
                  [Whitespace newline, LineBoundary 7]) example_state = Inr s1"
      "render (=) example_space_after_break example_state = Inr s'"
    by (elim conjE exE)
  have v1: "map text' (the_annots s1) = [''A'' @ newline, [], ''AB'' @ newline] \<and>
      lasthit s1 = {2} \<and> curline s1 = {}"
    using r(1)[symmetric] by (simp add: example_defs engine_defs numeral_2_eq_2)
  have v2: "map text' (the_annots s') = [''A'' @ newline, [], ''AB'' @ newline @ '' '']"
    using r(2)[symmetric]
    by (simp add: example_defs engine_defs example_space_after_break_def numeral_2_eq_2)
  have a: "\<exists>s1. run (=) ([LineBoundary 8, Character 1 ''A''] @ Character 2 ''B'' #
                  [Whitespace newline, LineBoundary 7]) example_state = Inr s1 \<and>
      map text' (the_annots s1) = [''A'' @ newline, [], ''AB'' @ newline] \<and>
      lasthit s1 = {2} \<and> curline s1 = {}"
    using r(1) v1 by (intro exI[of _ s1]) simp
  have b: "\<exists>s'. render (=) example_space_after_break example_state = Inr s' \<and>
      map text' (the_annots s') = [''A'' @ newline, [], ''AB'' @ newline @ '' '']"
    using r(2) v2 by (intro exI[of _ s']) simp
  show ?thesis by (intro conjI h1 h2 h3 h4 a b)
qed

subsection \<open>Whitespace\<close>

lemma step_char_hit:
  assumes "ready s" and "map boxes (the_annots s) = map boxes as" and "i < length as"
    and "box_hit hit g (as ! i)"
  shows "\<exists>s'. step hit (Character g t) s = Inr s' \<and> ready s' \<and>
     map boxes (the_annots s') = map boxes as \<and>
     text' (the_annots s' ! i) = text' (the_annots s ! i) @ t \<and> i \<in> curline s'"
proof -
  have l: "i < length (the_annots s)" using length_of_boxes[OF assms(2)] assms(3) by simp
  have h: "box_hit hit g (the_annots s ! i)"
    using box_hit_of_boxes[OF assms(2,3), of hit g] assms(4) by simp
  from step_text[OF assms(1) l, of hit "Character g t"] show ?thesis
    using h l assms(2) by (auto simp: hitset_iff simp del: step.simps)
qed

lemma step_line_text:
  assumes "ready s" and "i < length (the_annots s)" and "is_line_boundary e"
    and "step hit e s = Inr s'"
  shows "i < length (the_annots s') \<and> text' (the_annots s' ! i) = text' (the_annots s ! i)"
proof -
  obtain g where e: "e = LineBoundary g" using assms(3) by (cases e) simp_all
  from step_text[OF assms(1,2), of hit e] assms(4) have
    "map boxes (the_annots s') = map boxes (the_annots s)"
    "text' (the_annots s' ! i) = text' (the_annots s ! i)"
    using e by auto
  then show ?thesis using length_of_boxes[of "the_annots s'" "the_annots s"] assms(2) by simp
qed

lemma run_lines_text:
  assumes "ready s" and "i < length (the_annots s)" and "list_all is_line_boundary es"
  shows "\<exists>s'. run hit es s = Inr s' \<and> ready s' \<and>
     text' (the_annots s' ! i) = text' (the_annots s ! i) \<and>
     map boxes (the_annots s') = map boxes (the_annots s)"
proof -
  define P where "P = (\<lambda>u :: 'a RectExtractor. i < length (the_annots u) \<and>
     text' (the_annots u ! i) = text' (the_annots s ! i))"
  have "\<And>e u u'. e \<in> set es \<Longrightarrow> ready u \<Longrightarrow> P u \<Longrightarrow> step hit e u = Inr u' \<Longrightarrow> P u'"
  proof -
    fix e u u'
    assume "e \<in> set es" "ready u" "P u" "step hit e u = Inr u'"
    moreover from this assms(3) have "is_line_boundary e" by (simp add: list_all_iff)
    ultimately show "P u'" unfolding P_def using step_line_text[of u i e hit u'] by simp
  qed
  moreover note assms(1)
  moreover have "P s" unfolding P_def using assms(2) by simp
  ultimately have "\<exists>s'. run hit es s = Inr s' \<and> ready s' \<and> P s' \<and>
     map boxes (the_annots s') = map boxes (the_annots s)"
    by (rule run_invariant)
  then show ?thesis unfolding P_def by auto
qed

lemma the_annots_capture_all:
  "the_annots (capture_all S t s) = capture_at S t (the_annots s)"
  by (simp add: the_annots_def capture_all_def capture_at_def split: option.splits)

lemma the_annots_capture_newline:
  "the_annots (capture_newline s) = capture_at (curline s) newline (the_annots s)"
  by (simp add: the_annots_def capture_newline_def capture_all_def capture_at_def
      split: option.splits)

lemma AB_newline_CD:
  assumes "ready s" and "i < length (the_annots s)"
    and hits: "box_hit hit g1 (the_annots s ! i)" "box_hit hit g2 (the_annots s ! i)"
      "box_hit hit g3 (the_annots s ! i)" "box_hit hit g4 (the_annots s ! i)"
    and mid: "list_all is_line_boundary mid"
    and prims: "primitives item =
      pre @ [Character g1 ''A'', Character g2 ''B'', Whitespace newline] @ mid @
      [Character g3 ''C'', Character g4 ''D'']"
  shows "\<exists>s1 s'. run hit pre s = Inr s1 \<and> render hit item s = Inr s' \<and>
     text' (the_annots s' ! i) = text' (the_annots s1 ! i) @ ''AB'' @ newline @ ''CD''"
proof -
  let ?as = "the_annots s"
  from run_ready[OF assms(1), of hit pre] obtain s1 where
    s1: "run hit pre s = Inr s1" "ready s1" "map boxes (the_annots s1) = map boxes ?as"
    by auto
  from step_char_hit[OF s1(2,3) assms(2) hits(1), of "''A''"] obtain s2 where
    s2: "step hit (Character g1 ''A'') s1 = Inr s2" "ready s2"
      "map boxes (the_annots s2) = map boxes ?as"
      "text' (the_annots s2 ! i) = text' (the_annots s1 ! i) @ ''A''"
    by auto
  from step_char_hit[OF s2(2,3) assms(2) hits(2), of "''B''"] obtain s3 where
    s3: "step hit (Character g2 ''B'') s2 = Inr s3" "ready s3"
      "map boxes (the_annots s3) = map boxes ?as"
      "text' (the_annots s3 ! i) = text' (the_annots s2 ! i) @ ''B''" "i \<in> curline s3"
    by auto
  have l3: "i < length (the_annots s3)" using length_of_boxes[OF s3(3)] assms(2) by simp
  from step_text[OF s3(2) l3, of hit "Whitespace newline"] s3(5) obtain s4 where
    s4: "step hit (Whitespace newline) s3 = Inr s4" "ready s4"
      "map boxes (the_annots s4) = map boxes (the_annots s3)"
      "text' (the_annots s4 ! i) = text' (the_annots s3 ! i) @ newline"
    by auto
  have l4: "i < length (the_annots s4)" using length_of_boxes[OF s4(3)] l3 by simp
  from run_lines_text[OF s4(2) l4 mid, of hit] obtain s5 where
    s5: "run hit mid s4 = Inr s5" "ready s5"
      "text' (the_annots s5 ! i) = text' (the_annots s4 ! i)"
      "map boxes (the_annots s5) = map boxes (the_annots s4)"
    by auto
  have b5: "map boxes (the_annots s5) = map boxes ?as" using s5(4) s4(3) s3(3) by simp
  from step_char_hit[OF s5(2) b5 assms(2) hits(3), of "''C''"] obtain s6 where
    s6: "step hit (Character g3 ''C'') s5 = Inr s6" "ready s6"
      "map boxes (the_annots s6) = map boxes ?as"
      "text' (the_annots s6 ! i) = text' (the_annots s5 ! i) @ ''C''"
    by auto
  from step_char_hit[OF s6(2,3) assms(2) hits(4), of "''D''"] obtain s7 where
    s7: "step hit (Character g4 ''D'') s6 = Inr s7"
      "text' (the_annots s7 ! i) = text' (the_annots s6 ! i) @ ''D''"
    by auto
  have "run hit [Character g1 ''A'', Character g2 ''B'', Whitespace newline] s1 = Inr s4"
    using s2(1) s3(1) s4(1) by (simp del: step.simps)
  moreover have "run hit [Character g3 ''C'', Character g4 ''D''] s5 = Inr s7"
    using s6(1) s7(1) by (simp del: step.simps)
  ultimately have "run hit (primitives item) s = Inr s7"
    using s1(1) s5(1) unfolding prims by (simp only: run_append sum.case)
  then have "render hit item s = Inr s7" by (simp add: render_run)
  moreover have "text' (the_annots s7 ! i) = text' (the_annots s1 ! i) @ ''AB'' @ newline @ ''CD''"
    using s7(2) s6(4) s5(3) s4(4) s3(4) s2(4) by simp
  ultimately show ?thesis using s1(1) by blast
qed

text \<open>
  C2. A whitespace primitive whose text is a line break appends exactly one newline
  character to every annotation of the current-line set, to no other annotation, and
  empties the set; any other whitespace text is appended to the annotations of the last-hit
  set only. So an annotation that matches the characters of \<open>AB\<close>, then, after one line-break
  primitive and the boundary of the next line, the characters of \<open>CD\<close>, has accumulated
  exactly \<open>AB\<close>, a newline, \<open>CD\<close>.
\<close>

theorem whitespace_broadcast:
  assumes "i < length (the_annots s)"
  shows "(\<exists>s'. render hit (LTAnno newline) s = Inr s' \<and> curline s' = {} \<and>
        text' (the_annots s' ! i) =
          text' (the_annots s ! i) @ (if i \<in> curline s then newline else [])) \<and>
     (t \<noteq> newline \<longrightarrow>
        (\<exists>s'. render hit (LTAnno t) s = Inr s' \<and> curline s' = curline s \<and>
           text' (the_annots s' ! i) =
             text' (the_annots s ! i) @ (if i \<in> lasthit s then t else []))) \<and>
     (ready s \<and> box_hit hit g1 (the_annots s ! i) \<and> box_hit hit g2 (the_annots s ! i) \<and>
      box_hit hit g3 (the_annots s ! i) \<and> box_hit hit g4 (the_annots s ! i) \<and>
      list_all is_line_boundary mid \<and>
      primitives item =
        pre @ [Character g1 ''A'', Character g2 ''B'', Whitespace newline] @ mid @
        [Character g3 ''C'', Character g4 ''D''] \<longrightarrow>
        (\<exists>s1 s'. run hit pre s = Inr s1 \<and> render hit item s = Inr s' \<and>
           text' (the_annots s' ! i) =
             text' (the_annots s1 ! i) @ ''AB'' @ newline @ ''CD''))"
proof -
  have a: "\<exists>s'. render hit (LTAnno newline) s = Inr s' \<and> curline s' = {} \<and>
        text' (the_annots s' ! i) =
          text' (the_annots s ! i) @ (if i \<in> curline s then newline else [])"
    using assms
    by (simp add: the_annots_capture_newline capture_at_nth text_capture)
      (simp add: capture_newline_def)
  have b: "t \<noteq> newline \<Longrightarrow>
        (\<exists>s'. render hit (LTAnno t) s = Inr s' \<and> curline s' = curline s \<and>
           text' (the_annots s' ! i) =
             text' (the_annots s ! i) @ (if i \<in> lasthit s then t else []))"
    using assms
    by (simp add: the_annots_capture_all capture_at_nth text_capture)
      (simp add: capture_all_def)
  show ?thesis using a b AB_newline_CD[OF _ assms, of hit g1 g2 g3 g4 mid item pre] by blast
qed

theorem whitespace_broadcast_witness:
  "0 < length (the_annots example_state) \<and> ready example_state \<and>
   box_hit (=) 1 (the_annots example_state ! 0) \<and> '' '' \<noteq> newline \<and>
   list_all is_line_boundary [LineBoundary (7 :: nat)] \<and>
   primitives example_two_lines =
     [LineBoundary 8] @ [Character 1 ''A'', Character 1 ''B'', Whitespace newline] @
     [LineBoundary 7] @ [Character 1 ''C'', Character 1 ''D''] \<and>
   (\<exists>s'. render (=) (LTAnno '' '') example_state = Inr s' \<and>
      text' (the_annots s' ! 0) = []) \<and>
   (\<exists>s'. render (=) example_two_lines example_state = Inr s' \<and>
      text' (the_annots s' ! 0) = ''AB'' @ newline @ ''CD'')"
  using whitespace_broadcast [of 0 example_state "(=)" "'' ''" 1 1 1 1 "[LineBoundary 7]"
      example_two_lines "[LineBoundary 8]"]
  by (auto simp: example_defs example_two_lines_def box_hit_def update_pageseq_def
      stamp_annot_def)

subsection \<open>Containers and the page sequence counter\<close>

text \<open>
  C6. At the end of a text box, after all its children, the engine runs one hit-test against
  the box's own region and then flushes the line: the last-hit set becomes the set of
  annotations with a box hit by the region, every annotation that was in the current-line
  set or is hit by the region gets exactly one newline appended to its text, no other text
  changes, and the current-line set is emptied. Any other container ends with the state
  its children left: a text line only advances the counter before its children, another
  container does nothing.
\<close>

theorem text_box_end_flush:
  assumes "ready s"
  shows "\<exists>s2. render_children hit cs s = Inr s2 \<and>
     (\<exists>s3. render hit (LTContainer LTTextBox g cs) s = Inr s3 \<and>
        pageseq s3 = pageseq s2 \<and> curline s3 = {} \<and>
        length (the_annots s3) = length (the_annots s2) \<and>
        lasthit s3 = {i. i < length (the_annots s2) \<and> box_hit hit g (the_annots s2 ! i)} \<and>
        (\<forall>i. i < length (the_annots s2) \<longrightarrow>
           text' (the_annots s3 ! i) =
             text' (the_annots s2 ! i) @
             (if i \<in> curline s2 \<or> box_hit hit g (the_annots s2 ! i) then newline else []))) \<and>
     render hit (LTContainer LTOtherContainer g cs) s = Inr s2 \<and>
     (\<exists>s1. update_pageseq g s = Inr s1 \<and>
        render hit (LTContainer LTTextLine g cs) s = render_children hit cs s1)"
proof -
  from run_ready[OF assms, of hit "primitives_list cs"] obtain s2 where
    s2: "render_children hit cs s = Inr s2" "ready s2"
    by (auto simp: render_run)
  from step_TextBoxEnd[OF s2(2), of hit g] obtain s3 where
    s3: "step hit (TextBoxEnd g) s2 = Inr s3" "pageseq s3 = pageseq s2"
      "lasthit s3 = hitset hit g (the_annots s2)" "curline s3 = {}"
      "the_annots s3 =
          capture_at (curline s2 \<union> hitset hit g (the_annots s2)) newline (the_annots s2)"
    by auto
  have box: "render hit (LTContainer LTTextBox g cs) s = Inr s3"
    using s2(1) s3(1) by (simp split: sum.splits prod.splits)
  have len: "length (the_annots s3) = length (the_annots s2)"
    using s3(5) by (simp add: capture_at_length)
  have lh: "lasthit s3 = {i. i < length (the_annots s2) \<and> box_hit hit g (the_annots s2 ! i)}"
    unfolding s3(3) by (rule set_eqI) (simp add: hitset_iff)
  have tx: "\<forall>i. i < length (the_annots s2) \<longrightarrow>
           text' (the_annots s3 ! i) =
             text' (the_annots s2 ! i) @
             (if i \<in> curline s2 \<or> box_hit hit g (the_annots s2 ! i) then newline else [])"
    using s3(5) by (simp add: capture_at_nth text_capture hitset_iff)
  have other: "render hit (LTContainer LTOtherContainer g cs) s = Inr s2"
    using s2(1) by simp
  from step_LineBoundary[OF assms, of hit g] obtain s1 where
    s1: "update_pageseq g s = Inr s1" by auto
  have line: "render hit (LTContainer LTTextLine g cs) s = render_children hit cs s1"
    using s1 by (cases "render_children hit cs s1") simp_all
  have inner: "\<exists>s3. render hit (LTContainer LTTextBox g cs) s = Inr s3 \<and>
        pageseq s3 = pageseq s2 \<and> curline s3 = {} \<and>
        length (the_annots s3) = length (the_annots s2) \<and>
        lasthit s3 = {i. i < length (the_annots s2) \<and> box_hit hit g (the_annots s2 ! i)} \<and>
        (\<forall>i. i < length (the_annots s2) \<longrightarrow>
           text' (the_annots s3 ! i) =
             text' (the_annots s2 ! i) @
             (if i \<in> curline s2 \<or> box_hit hit g (the_annots s2 ! i) then newline else []))"
    by (rule exI[of _ s3]) (intro conjI box s3(2) s3(4) len lh tx)
  have tl: "\<exists>s1. update_pageseq g s = Inr s1 \<and>
        render hit (LTContainer LTTextLine g cs) s = render_children hit cs s1"
    by (rule exI[of _ s1]) (intro conjI s1 line)
  show ?thesis
    by (rule exI[of _ s2]) (intro conjI s2(1) inner other tl)
qed

theorem text_box_end_flush_witness:
  "ready example_state \<and>
   (\<exists>s2. render_children (=) [LTChar 1 ''A''] example_state = Inr s2 \<and>
      map text' (the_annots s2) = [''A'', [], ''A''] \<and> curline s2 = {0, 2} \<and>
      lasthit s2 = {0, 2} \<and>
      render (=) (LTContainer LTOtherContainer 2 [LTChar 1 ''A'']) example_state = Inr s2 \<and>
      (\<exists>s3. render (=) (LTContainer LTTextBox 2 [LTChar 1 ''A'']) example_state = Inr s3 \<and>
         lasthit s3 = {2} \<and> curline s3 = {} \<and>
         map text' (the_annots s3) = [''A'' @ newline, [], ''A'' @ newline])) \<and>
   (\<exists>s3. render (=) (LTContainer LTTextBox 2 [LTChar 3 ''A'']) example_state = Inr s3 \<and>
      lasthit s3 = {2} \<and> curline s3 = {} \<and>
      map text' (the_annots s3) = [[], [], newline])"
proof -
  have h: "ready example_state" by (simp add: example_defs)
  from text_box_end_flush [OF h, of "(=)" "[LTChar 1 ''A'']" 2] obtain s2 s3 where
    r: "render_children (=) [LTChar 1 ''A''] example_state = Inr s2"
      "render (=) (LTContainer LTTextBox 2 [LTChar 1 ''A'']) example_state = Inr s3"
      "render (=) (LTContainer LTOtherContainer 2 [LTChar 1 ''A'']) example_state = Inr s2"
    by blast
  have v2: "map text' (the_annots s2) = [''A'', [], ''A''] \<and> curline s2 = {0, 2} \<and>
      lasthit s2 = {0, 2}"
    using r(1)[symmetric] by (simp add: example_defs engine_defs numeral_2_eq_2)
  have v3: "lasthit s3 = {2} \<and> curline s3 = {} \<and>
         map text' (the_annots s3) = [''A'' @ newline, [], ''A'' @ newline]"
    using r(2)[symmetric] by (simp add: example_defs engine_defs numeral_2_eq_2)
  from text_box_end_flush [OF h, of "(=)" "[LTChar 3 ''A'']" 2] obtain t3 where
    q: "render (=) (LTContainer LTTextBox 2 [LTChar 3 ''A'']) example_state = Inr t3"
    by blast
  have w3: "lasthit t3 = {2} \<and> curline t3 = {} \<and>
      map text' (the_annots t3) = [[], [], newline]"
    using q[symmetric] by (simp add: example_defs engine_defs numeral_2_eq_2)
  have a: "\<exists>s3. render (=) (LTContainer LTTextBox 2 [LTChar 1 ''A'']) example_state = Inr s3 \<and>
         lasthit s3 = {2} \<and> curline s3 = {} \<and>
         map text' (the_annots s3) = [''A'' @ newline, [], ''A'' @ newline]"
    using r(2) v3 by (intro exI[of _ s3]) simp
  have b: "\<exists>s2. render_children (=) [LTChar 1 ''A''] example_state = Inr s2 \<and>
      map text' (the_annots s2) = [''A'', [], ''A''] \<and> curline s2 = {0, 2} \<and>
      lasthit s2 = {0, 2} \<and>
      render (=) (LTContainer LTOtherContainer 2 [LTChar 1 ''A'']) example_state = Inr s2 \<and>
      (\<exists>s3. render (=) (LTContainer LTTextBox 2 [LTChar 1 ''A'']) example_state = Inr s3 \<and>
         lasthit s3 = {2} \<and> curline s3 = {} \<and>
         map text' (the_annots s3) = [''A'' @ newline, [], ''A'' @ newline])"
    using r(1,3) v2 a by (intro exI[of _ s2]) simp
  have c: "\<exists>s3. render (=) (LTContainer LTTextBox 2 [LTChar 3 ''A'']) example_state = Inr s3 \<and>
      lasthit s3 = {2} \<and> curline s3 = {} \<and>
      map text' (the_annots s3) = [[], [], newline]"
    using q w3 by (intro exI[of _ t3]) simp
  show ?thesis by (intro conjI h b c)
qed

lemma ready_update_pageseq:
  "ready s \<Longrightarrow> \<exists>s'. update_pageseq g s = Inr s' \<and> ready s' \<and> pageseq s' = pageseq s + 1"
  using step_LineBoundary[of s hit g] by auto

lemma run_pageseq:
  "ready s \<Longrightarrow> \<exists>s'. run hit es s = Inr s' \<and> ready s' \<and>
     pageseq s' = pageseq s + int (length (filter is_line_boundary es))"
proof (induction es arbitrary: s)
  case Nil
  then show ?case by simp
next
  case (Cons e es)
  have "\<exists>s1. step hit e s = Inr s1 \<and> ready s1 \<and>
      pageseq s1 = pageseq s + (if is_line_boundary e then 1 else 0)"
  proof (cases e)
    case (LineBoundary g)
    then show ?thesis using step_LineBoundary[OF Cons.prems, of hit g] by auto
  next
    case (TextBoxEnd g)
    then show ?thesis using step_TextBoxEnd[OF Cons.prems, of hit g] by auto
  next
    case (Character g t)
    then show ?thesis using step_Character[OF Cons.prems, of hit g t] by auto
  next
    case (Whitespace t)
    then show ?thesis
      using step_Whitespace_newline[OF Cons.prems, of hit]
        step_Whitespace_other[OF Cons.prems, of t hit]
      by (cases "t = newline") auto
  qed
  then obtain s1 where s1: "step hit e s = Inr s1" "ready s1"
      "pageseq s1 = pageseq s + (if is_line_boundary e then 1 else 0)" by auto
  from Cons.IH[OF s1(2)] obtain s' where
    "run hit es s1 = Inr s'" "ready s'"
    "pageseq s' = pageseq s1 + int (length (filter is_line_boundary es))" by auto
  then show ?case using s1 by (simp del: step.simps)
qed

lemma count_lines_primitives:
  "length (filter is_line_boundary (primitives (item :: 'g LTItem))) = count_lines item"
  "length (filter is_line_boundary (primitives_list (items :: 'g LTItem list))) =
     count_lines_list items"
  by (induction item and items rule: primitives_primitives_list.induct) simp_all

lemma ready_start_page:
  "ready (start_page p s) = list_all (\<lambda>ol. pos ol \<noteq> None) (outlines p)"
  by (simp add: ready_def start_page_def)

text \<open>
  C9. \<^verbatim>\<open>start_page\<close> sets the page sequence counter to 0, and rendering adds one for every
  text line of the layout tree and nothing for any other item: characters, whitespace,
  other items and the begin and end of other containers leave the counter alone.
\<close>

theorem pageseq_counts_text_lines:
  "pageseq (start_page p s0) = 0 \<and>
   (ready s \<longrightarrow>
      (\<exists>s'. render hit item s = Inr s' \<and> pageseq s' = pageseq s + int (count_lines item))) \<and>
   (list_all (\<lambda>ol. pos ol \<noteq> None) (outlines p) \<longrightarrow>
      (\<exists>s'. receive_layout hit item (start_page p s0) = Inr s' \<and>
         pageseq s' = int (count_lines item)))"
proof -
  have a: "pageseq (start_page p s0) = 0" by (simp add: start_page_def)
  have b: "\<And>u. ready u \<Longrightarrow>
      \<exists>s'. render hit item u = Inr s' \<and> pageseq s' = pageseq u + int (count_lines item)"
    using run_pageseq[of _ hit "primitives item"]
    by (auto simp: render_run count_lines_primitives)
  have c: "list_all (\<lambda>ol. pos ol \<noteq> None) (outlines p) \<Longrightarrow>
      \<exists>s'. receive_layout hit item (start_page p s0) = Inr s' \<and>
         pageseq s' = int (count_lines item)"
  proof -
    assume "list_all (\<lambda>ol. pos ol \<noteq> None) (outlines p)"
    then have "ready ((start_page p s0)\<lparr>lasthit := {}, curline := {}\<rparr>)"
      by (simp add: ready_reset ready_start_page)
    from b[OF this] show ?thesis by (simp add: receive_layout_def start_page_def)
  qed
  show ?thesis using a b c by blast
qed

theorem pageseq_counts_text_lines_witness:
  "ready example_state \<and> list_all (\<lambda>ol. pos ol \<noteq> None) (outlines example_page) \<and>
   (\<exists>s'. render (=) example_layout example_state = Inr s' \<and> pageseq s' = 2) \<and>
   (\<exists>s'. receive_layout (=) example_layout (start_page example_page example_state) = Inr s' \<and>
      pageseq s' = 2)"
  using pageseq_counts_text_lines [of example_page example_state example_state "(=)" example_layout]
  by (simp add: example_defs example_layout_def)

subsection \<open>The start Position\<close>

lemma startpos_stamp_annot:
  "startpos (stamp_annot g n a) =
     (if startpos a = Some Pending then Some (Resolved n) else startpos a)"
proof (cases "startpos a")
  case None
  then show ?thesis by (simp add: stamp_annot_def)
next
  case (Some q)
  then show ?thesis by (cases q) (simp_all add: stamp_annot_def)
qed

lemma startpos_capture:
  "startpos (capture t a) = (case startpos a of None \<Rightarrow> Some Pending | Some q \<Rightarrow> Some q)"
  by (simp add: capture_def)

lemma touched_stamp_annot: "touched t0 a \<Longrightarrow> touched t0 (stamp_annot g n a)"
  by (auto simp: touched_def startpos_stamp_annot text_stamp_annot split: if_splits)

lemma touched_capture: "t \<noteq> [] \<Longrightarrow> touched t0 a \<Longrightarrow> touched t0 (capture t a)"
  by (auto simp: touched_def startpos_capture text_capture split: if_splits option.splits)

lemma resolved_stamp_annot:
  "startpos a = Some (Resolved n) \<Longrightarrow> startpos (stamp_annot g m a) = Some (Resolved n)"
  by (simp add: startpos_stamp_annot)

lemma resolved_capture:
  "startpos a = Some (Resolved n) \<Longrightarrow> startpos (capture t a) = Some (Resolved n)"
  by (simp add: startpos_capture)

text \<open>One primitive either stamps the annotation, or captures a text on it, or leaves it.\<close>

lemma step_annot:
  assumes "ready s" and "i < length (the_annots s)" and "step hit e s = Inr s'"
  shows "ready s' \<and> i < length (the_annots s') \<and>
     ((\<exists>g. e = LineBoundary g \<and>
         the_annots s' ! i = stamp_annot g (pageseq s + 1) (the_annots s ! i)) \<or>
      (\<exists>t. (has_text e \<longrightarrow> t \<noteq> []) \<and> the_annots s' ! i = capture t (the_annots s ! i)) \<or>
      the_annots s' ! i = the_annots s ! i)"
proof (cases e)
  case (LineBoundary g)
  from step_LineBoundary[OF assms(1), of hit g] assms(2,3) LineBoundary show ?thesis
    by auto
next
  case (TextBoxEnd g)
  from step_TextBoxEnd[OF assms(1), of hit g] assms(2,3) TextBoxEnd show ?thesis
    by (auto simp: capture_at_length capture_at_nth)
next
  case (Character g t)
  from step_Character[OF assms(1), of hit g t] assms(2,3) Character show ?thesis
    by (auto simp: capture_at_length capture_at_nth)
next
  case (Whitespace t)
  show ?thesis
  proof (cases "t = newline")
    case True
    from step_Whitespace_newline[OF assms(1), of hit] assms(2,3) Whitespace True show ?thesis
      by (auto simp: capture_at_length capture_at_nth)
  next
    case False
    from step_Whitespace_other[OF assms(1) False, of hit] assms(2,3) Whitespace show ?thesis
      by (auto simp: capture_at_length capture_at_nth)
  qed
qed

lemma run_touched:
  assumes "ready s" and "i < length (the_annots s)" and "touched t0 (the_annots s ! i)"
    and "list_all has_text es"
  shows "\<exists>s'. run hit es s = Inr s' \<and> ready s' \<and> i < length (the_annots s') \<and>
     touched t0 (the_annots s' ! i)"
proof -
  define P where "P = (\<lambda>u :: 'a RectExtractor. i < length (the_annots u) \<and>
     touched t0 (the_annots u ! i))"
  have "\<And>e u u'. e \<in> set es \<Longrightarrow> ready u \<Longrightarrow> P u \<Longrightarrow> step hit e u = Inr u' \<Longrightarrow> P u'"
  proof -
    fix e u u'
    assume e: "e \<in> set es" and u: "ready u" "P u" "step hit e u = Inr u'"
    from e assms(4) have ht: "has_text e" by (simp add: list_all_iff)
    from u(2) have i: "i < length (the_annots u)" and t: "touched t0 (the_annots u ! i)"
      by (simp_all add: P_def)
    from step_annot[OF u(1) i u(3)] ht t show "P u'"
      unfolding P_def by (auto simp: touched_stamp_annot touched_capture)
  qed
  moreover note assms(1)
  moreover have "P s" unfolding P_def using assms(2,3) by simp
  ultimately have "\<exists>s'. run hit es s = Inr s' \<and> ready s' \<and> P s' \<and>
     map boxes (the_annots s') = map boxes (the_annots s)"
    by (rule run_invariant)
  then show ?thesis unfolding P_def by auto
qed

lemma run_resolved:
  assumes "ready s" and "i < length (the_annots s)"
    and "startpos (the_annots s ! i) = Some (Resolved n)"
  shows "\<exists>s'. run hit es s = Inr s' \<and> startpos (the_annots s' ! i) = Some (Resolved n)"
proof -
  define P where "P = (\<lambda>u :: 'a RectExtractor. i < length (the_annots u) \<and>
     startpos (the_annots u ! i) = Some (Resolved n))"
  have "\<And>e u u'. e \<in> set es \<Longrightarrow> ready u \<Longrightarrow> P u \<Longrightarrow> step hit e u = Inr u' \<Longrightarrow> P u'"
  proof -
    fix e u u'
    assume u: "ready u" "P u" "step hit e u = Inr u'"
    from u(2) have i: "i < length (the_annots u)"
      and t: "startpos (the_annots u ! i) = Some (Resolved n)"
      by (simp_all add: P_def)
    from step_annot[OF u(1) i u(3)] t show "P u'"
      unfolding P_def by (auto simp: resolved_stamp_annot resolved_capture)
  qed
  moreover note assms(1)
  moreover have "P s" unfolding P_def using assms(2,3) by simp
  ultimately have "\<exists>s'. run hit es s = Inr s' \<and> ready s' \<and> P s' \<and>
     map boxes (the_annots s') = map boxes (the_annots s)"
    by (rule run_invariant)
  then show ?thesis unfolding P_def by auto
qed

text \<open>
  C3. A text-line boundary first adds one to the page sequence counter and then stamps the
  new value onto exactly the annotations whose start Position is pending: those that are
  not yet resolved and have had text captured in this render pass. A Position that is
  resolved keeps its number through everything rendered later, further line boundaries
  included.
\<close>

theorem startpos_stamped_once:
  assumes "ready s" and "i < length (the_annots s)" and "startpos (the_annots s ! i) = None"
    and "list_all has_text es"
  shows "\<exists>s1 s2. run (hit :: 'b \<Rightarrow> 'g \<Rightarrow> bool) es s = Inr s1 \<and>
     update_pageseq (g :: 'g) s1 = Inr s2 \<and>
     pageseq s2 = pageseq s1 + 1 \<and>
     ((startpos (the_annots s1 ! i) = Some Pending) =
        ((\<forall>n. startpos (the_annots s1 ! i) \<noteq> Some (Resolved n)) \<and>
         text' (the_annots s1 ! i) \<noteq> text' (the_annots s ! i))) \<and>
     startpos (the_annots s2 ! i) =
       (if startpos (the_annots s1 ! i) = Some Pending then Some (Resolved (pageseq s2))
        else startpos (the_annots s1 ! i)) \<and>
     (\<forall>n es'. startpos (the_annots s2 ! i) = Some (Resolved n) \<longrightarrow>
        (\<exists>s3. run hit es' s2 = Inr s3 \<and> startpos (the_annots s3 ! i) = Some (Resolved n)))"
proof -
  have t0: "touched (text' (the_annots s ! i)) (the_annots s ! i)"
    using assms(3) by (simp add: touched_def)
  from run_touched[OF assms(1,2) t0 assms(4), of hit] obtain s1 where
    s1: "run hit es s = Inr s1" "ready s1" "i < length (the_annots s1)"
      "touched (text' (the_annots s ! i)) (the_annots s1 ! i)"
    by auto
  from step_LineBoundary[OF s1(2), of hit g] obtain s2 where
    s2: "update_pageseq g s1 = Inr s2" "ready s2" "pageseq s2 = pageseq s1 + 1"
      "the_annots s2 = map (stamp_annot g (pageseq s1 + 1)) (the_annots s1)"
    by auto
  have a: "(startpos (the_annots s1 ! i) = Some Pending) =
        ((\<forall>n. startpos (the_annots s1 ! i) \<noteq> Some (Resolved n)) \<and>
         text' (the_annots s1 ! i) \<noteq> text' (the_annots s ! i))"
  proof (cases "startpos (the_annots s1 ! i)")
    case None
    then show ?thesis using s1(4) by (simp add: touched_def)
  next
    case (Some q)
    then show ?thesis using s1(4) by (cases q) (auto simp: touched_def)
  qed
  have b: "startpos (the_annots s2 ! i) =
       (if startpos (the_annots s1 ! i) = Some Pending then Some (Resolved (pageseq s2))
        else startpos (the_annots s1 ! i))"
    using s2(3,4) s1(3) by (simp add: startpos_stamp_annot)
  have i2: "i < length (the_annots s2)" using s2(4) s1(3) by simp
  have c: "\<forall>n es'. startpos (the_annots s2 ! i) = Some (Resolved n) \<longrightarrow>
        (\<exists>s3. run hit es' s2 = Inr s3 \<and> startpos (the_annots s3 ! i) = Some (Resolved n))"
    using run_resolved[OF s2(2) i2] by blast
  show ?thesis using s1(1) s2(1,3) a b c by blast
qed

theorem startpos_stamped_once_witness:
  "ready example_state \<and> 0 < length (the_annots example_state) \<and>
   startpos (the_annots example_state ! 0) = None \<and>
   list_all has_text [LineBoundary (8 :: nat), Character 1 ''A''] \<and>
   (\<exists>s1 s2. run (=) [LineBoundary 8, Character 1 ''A''] example_state = Inr s1 \<and>
      update_pageseq (7 :: nat) s1 = Inr s2 \<and>
      startpos (the_annots s1 ! 0) = Some Pending \<and>
      startpos (the_annots s2 ! 0) = Some (Resolved 2))"
proof -
  have h1: "ready example_state" by (simp add: example_defs)
  have h2: "0 < length (the_annots example_state)" by (simp add: example_defs)
  have h3: "startpos (the_annots example_state ! 0) = None" by (simp add: example_defs)
  have h4: "list_all has_text [LineBoundary (8 :: nat), Character 1 ''A'']" by simp
  from startpos_stamped_once [OF h1 h2 h3 h4, of "(=)" 7] obtain s1 s2 where
    r: "run (=) [LineBoundary 8, Character 1 ''A''] example_state = Inr s1"
      "update_pageseq (7 :: nat) s1 = Inr s2" "pageseq s2 = pageseq s1 + 1"
      "startpos (the_annots s2 ! 0) =
         (if startpos (the_annots s1 ! 0) = Some Pending then Some (Resolved (pageseq s2))
          else startpos (the_annots s1 ! 0))"
    by blast
  have v: "startpos (the_annots s1 ! 0) = Some Pending \<and> pageseq s1 = 1"
    using r(1)
    by (auto simp: example_defs update_pageseq_def stamp_annot_def testboxes_def hitset_def
        box_hit_def capture_all_def capture_at_def capture_def Let_def)
  show ?thesis using h1 h2 h3 h4 r v by auto
qed

section \<open>Properties of annotation and outline construction\<close>

lemma bind_err_simps:
  "bind_err (Inl e) f = Inl e"
  "bind_err (Inr x) f = f x"
  by (simp_all add: bind_err_def)

lemma mkannotation_unsupported:
  assumes "map_of kvs ''Subtype'' = Some (PSLiteral n)" and "n \<notin> ANNOT_SUBTYPES"
  shows "mkannotation X (PDict kvs) pg = Inr None"
  using assms by (simp add: mkannotation_def bind_err_simps)

lemma make_annots_skip_unsupported:
  assumes "resolve_ref X r = PDict kvs" and "map_of kvs ''Subtype'' = Some (PSLiteral n)"
    and "n \<notin> ANNOT_SUBTYPES"
  shows "make_annots X pg (pre @ PDFObjRef r # pas) = make_annots X pg (pre @ pas)"
proof (induction pre)
  case Nil
  have "make_annots X pg (PDFObjRef r # pas) = make_annots X pg pas"
    using mkannotation_unsupported[OF assms(2,3), of X pg] assms(1)
    by (cases "make_annots X pg pas") (auto simp: bind_err_simps)
  then show ?case by simp
next
  case (Cons a pre)
  then show ?case by (cases a) simp_all
qed

text \<open>
  C5. \<^verbatim>\<open>_mkannotation\<close> returns no annotation for a record whose subtype is a name outside
  the five supported ones, and the loop over a page's records then builds the same
  annotations and logs the same messages as if the record were not there.
\<close>

theorem unsupported_subtype_dropped:
  assumes "map_of kvs ''Subtype'' = Some (PSLiteral n)" and "n \<notin> ANNOT_SUBTYPES"
  shows "mkannotation X (PDict kvs) pg = Inr None \<and>
     (resolve_ref X r = PDict kvs \<longrightarrow>
        make_annots X pg (pre @ PDFObjRef r # pas) = make_annots X pg (pre @ pas))"
  using mkannotation_unsupported[OF assms] make_annots_skip_unsupported[OF _ assms]
  by blast

theorem unsupported_subtype_dropped_witness:
  "map_of [(''Subtype'', PSLiteral ''FreeText'')] ''Subtype'' = Some (PSLiteral ''FreeText'') \<and>
   ''FreeText'' \<notin> ANNOT_SUBTYPES \<and>
   mkannotation example_extern (PDict [(''Subtype'', PSLiteral ''FreeText'')]) example_page =
     Inr None \<and>
   resolve_ref example_extern 8 = PDict [(''Subtype'', PSLiteral ''FreeText'')] \<and>
   make_annots example_extern example_page ([] @ PDFObjRef 8 # []) =
     make_annots example_extern example_page ([] @ [])"
proof -
  have h1: "map_of [(''Subtype'', PSLiteral ''FreeText'')] ''Subtype'' =
      Some (PSLiteral ''FreeText'')"
    by simp
  have h2: "''FreeText'' \<notin> ANNOT_SUBTYPES" by (simp add: ANNOT_SUBTYPES_def)
  have h3: "resolve_ref example_extern 8 = PDict [(''Subtype'', PSLiteral ''FreeText'')]"
    by (simp add: example_extern_def)
  from unsupported_subtype_dropped [OF h1 h2, of example_extern example_page 8 "[]" "[]"]
    h1 h2 h3
  show ?thesis by blast
qed

lemma outline_of_dest_cases:
  "index1 dest = Inl e \<Longrightarrow> outline_of_dest ti dest = Inl e"
  "index1 dest = Inr mode \<Longrightarrow> mode \<noteq> PSLiteral ''XYZ'' \<Longrightarrow> outline_of_dest ti dest = Inr (None, [])"
  "index1 dest = Inr (PSLiteral ''XYZ'') \<Longrightarrow> first4 dest = Inl e \<Longrightarrow> outline_of_dest ti dest = Inl e"
  "index1 dest = Inr (PSLiteral ''XYZ'') \<Longrightarrow> first4 dest = Inr (pr, m, x, y) \<Longrightarrow> is_pageref pr \<Longrightarrow>
     outline_of_dest ti dest = Inr (Some (Outline_init ti pr (x, y)), [])"
  "index1 dest = Inr (PSLiteral ''XYZ'') \<Longrightarrow> first4 dest = Inr (pr, m, x, y) \<Longrightarrow> \<not> is_pageref pr \<Longrightarrow>
     outline_of_dest ti dest = Inr (None, [Warning_unsupported_pageref pr])"
  by (simp_all add: outline_of_dest_def bind_err_simps)

text \<open>
  C8, as the code has it. Only a resolved destination whose display mode is \<open>XYZ\<close> and
  whose page reference is an integer or an indirect reference yields an outline, and one
  of at least four elements does. A destination with another display mode is ignored and
  nothing is logged for it; whenever a warning is logged, it is for an \<open>XYZ\<close>
  destination with another kind of page reference.
\<close>

theorem outline_only_for_xyz:
  "(outline_of_dest ti dest = Inr (Some ol, l) \<longrightarrow>
      index1 dest = Inr (PSLiteral ''XYZ'') \<and> is_pageref (pageref ol) \<and>
      (\<exists>m x y. first4 dest = Inr (pageref ol, m, x, y) \<and>
         ol = Outline_init ti (pageref ol) (x, y)) \<and> l = []) \<and>
   (index1 dest = Inr (PSLiteral ''XYZ'') \<and> first4 dest = Inr (pr, m, x, y) \<and> is_pageref pr \<longrightarrow>
      outline_of_dest ti dest = Inr (Some (Outline_init ti pr (x, y)), [])) \<and>
   (index1 dest = Inr mode \<and> mode \<noteq> PSLiteral ''XYZ'' \<longrightarrow>
      outline_of_dest ti dest = Inr (None, [])) \<and>
   (outline_of_dest ti dest = Inr (res, l) \<and> l \<noteq> [] \<longrightarrow>
      res = None \<and> index1 dest = Inr (PSLiteral ''XYZ'') \<and>
      (\<exists>pr m x y. first4 dest = Inr (pr, m, x, y) \<and> \<not> is_pageref pr \<and>
         l = [Warning_unsupported_pageref pr]))"
proof -
  have a: "outline_of_dest ti dest = Inr (Some ol, l) \<longleftrightarrow>
      index1 dest = Inr (PSLiteral ''XYZ'') \<and>
      (\<exists>pr m x y. first4 dest = Inr (pr, m, x, y) \<and> is_pageref pr \<and>
         ol = Outline_init ti pr (x, y) \<and> l = [])" for ol l
  proof (cases "index1 dest")
    case (Inl e)
    then show ?thesis by (simp add: outline_of_dest_cases)
  next
    case (Inr mode)
    show ?thesis
    proof (cases "mode = PSLiteral ''XYZ''")
      case False
      then show ?thesis using Inr by (simp add: outline_of_dest_cases)
    next
      case True
      show ?thesis
      proof (cases "first4 dest")
        case (Inl e)
        then show ?thesis using Inr True by (simp add: outline_of_dest_cases)
      next
        case r4: (Inr q)
        obtain pr m x y where q: "q = (pr, m, x, y)" by (cases q) auto
        show ?thesis using Inr True r4 q
          by (cases "is_pageref pr") (auto simp: outline_of_dest_cases)
      qed
    qed
  qed
  have c1: "outline_of_dest ti dest = Inr (Some ol, l) \<longrightarrow>
      index1 dest = Inr (PSLiteral ''XYZ'') \<and> is_pageref (pageref ol) \<and>
      (\<exists>m x y. first4 dest = Inr (pageref ol, m, x, y) \<and>
         ol = Outline_init ti (pageref ol) (x, y)) \<and> l = []"
    using a[of ol l] by (auto simp: Outline_init_def)
  have c4: "outline_of_dest ti dest = Inr (res, l) \<and> l \<noteq> [] \<longrightarrow>
      res = None \<and> index1 dest = Inr (PSLiteral ''XYZ'') \<and>
      (\<exists>pr m x y. first4 dest = Inr (pr, m, x, y) \<and> \<not> is_pageref pr \<and>
         l = [Warning_unsupported_pageref pr])"
  proof (cases "index1 dest")
    case (Inl e)
    then show ?thesis by (simp add: outline_of_dest_cases)
  next
    case (Inr mode)
    show ?thesis
    proof (cases "mode = PSLiteral ''XYZ''")
      case False
      then show ?thesis using Inr by (simp add: outline_of_dest_cases)
    next
      case True
      show ?thesis
      proof (cases "first4 dest")
        case (Inl e)
        then show ?thesis using Inr True by (simp add: outline_of_dest_cases)
      next
        case r4: (Inr q)
        obtain pr m x y where q: "q = (pr, m, x, y)" by (cases q) auto
        show ?thesis using Inr True r4 q
          by (cases "is_pageref pr") (auto simp: outline_of_dest_cases)
      qed
    qed
  qed
  have c2: "index1 dest = Inr (PSLiteral ''XYZ'') \<and> first4 dest = Inr (pr, m, x, y) \<and>
      is_pageref pr \<longrightarrow>
      outline_of_dest ti dest = Inr (Some (Outline_init ti pr (x, y)), [])"
    by (intro impI, elim conjE) (rule outline_of_dest_cases(4))
  have c3: "index1 dest = Inr mode \<and> mode \<noteq> PSLiteral ''XYZ'' \<longrightarrow>
      outline_of_dest ti dest = Inr (None, [])"
    by (intro impI, elim conjE) (rule outline_of_dest_cases(2))
  show ?thesis by (intro conjI c1 c2 c3 c4)
qed

theorem outline_only_for_xyz_witness:
  "outline_of_dest (PBytes ''Intro'') (PList [PInt 0, PSLiteral ''XYZ'', PInt 3, PInt 4]) =
     Inr (Some (Outline_init (PBytes ''Intro'') (PInt 0) (PInt 3, PInt 4)), []) \<and>
   index1 (PList [PInt 0, PSLiteral ''XYZ'', PInt 3, PInt 4]) = Inr (PSLiteral ''XYZ'') \<and>
   first4 (PList [PInt 0, PSLiteral ''XYZ'', PInt 3, PInt 4]) =
     Inr (PInt 0, PSLiteral ''XYZ'', PInt 3, PInt 4) \<and>
   is_pageref (pageref (Outline_init (PBytes ''Intro'') (PInt 0) (PInt 3, PInt 4))) \<and>
   is_pageref (PInt 0) \<and>
   index1 (PList [PInt 0, PSLiteral ''Fit'']) = Inr (PSLiteral ''Fit'') \<and>
   PSLiteral ''Fit'' \<noteq> PSLiteral ''XYZ'' \<and>
   outline_of_dest (PBytes ''Intro'') (PList [PInt 0, PSLiteral ''Fit'']) = Inr (None, []) \<and>
   outline_of_dest (PBytes ''Intro'') (PList [PNone, PSLiteral ''XYZ'', PInt 0, PInt 0]) =
     Inr (None, [Warning_unsupported_pageref PNone]) \<and>
   [Warning_unsupported_pageref PNone] \<noteq> [] \<and>
   first4 (PList [PNone, PSLiteral ''XYZ'', PInt 0, PInt 0]) =
     Inr (PNone, PSLiteral ''XYZ'', PInt 0, PInt 0) \<and>
   \<not> is_pageref PNone"
proof -
  have i1: "index1 (PList [PInt 0, PSLiteral ''XYZ'', PInt 3, PInt 4]) = Inr (PSLiteral ''XYZ'')"
    by simp
  have f1: "first4 (PList [PInt 0, PSLiteral ''XYZ'', PInt 3, PInt 4]) =
     Inr (PInt 0, PSLiteral ''XYZ'', PInt 3, PInt 4)"
    by simp
  have p1: "is_pageref (PInt 0)" by simp
  let ?ol = "Outline_init (PBytes ''Intro'') (PInt 0) (PInt 3, PInt 4)"
  note T1 = outline_only_for_xyz [of "PBytes ''Intro''" "PList [PInt 0, PSLiteral ''XYZ'', PInt 3, PInt 4]"
      ?ol "[]" "PInt 0" "PSLiteral ''XYZ''" "PInt 3" "PInt 4" "PSLiteral ''XYZ''" None]
  have y: "outline_of_dest (PBytes ''Intro'') (PList [PInt 0, PSLiteral ''XYZ'', PInt 3, PInt 4]) =
     Inr (Some (Outline_init (PBytes ''Intro'') (PInt 0) (PInt 3, PInt 4)), [])"
    using T1[THEN conjunct2, THEN conjunct1] i1 f1 p1 by (simp del: index1.simps first4.simps)
  have p1': "is_pageref (pageref (Outline_init (PBytes ''Intro'') (PInt 0) (PInt 3, PInt 4)))"
    using T1[THEN conjunct1] y by (simp del: index1.simps first4.simps)
  have i2: "index1 (PList [PInt 0, PSLiteral ''Fit'']) = Inr (PSLiteral ''Fit'')" by simp
  have n2: "PSLiteral ''Fit'' \<noteq> PSLiteral ''XYZ''" by simp
  note T2 = outline_only_for_xyz [of "PBytes ''Intro''" "PList [PInt 0, PSLiteral ''Fit'']"
      ?ol "[]" PNone PNone PNone PNone "PSLiteral ''Fit''" None]
  have z: "outline_of_dest (PBytes ''Intro'') (PList [PInt 0, PSLiteral ''Fit'']) =
      Inr (None, [])"
    using T2[THEN conjunct2, THEN conjunct2, THEN conjunct1] i2 n2
    by (simp del: index1.simps)
  have w: "outline_of_dest (PBytes ''Intro'') (PList [PNone, PSLiteral ''XYZ'', PInt 0, PInt 0]) =
     Inr (None, [Warning_unsupported_pageref PNone])"
    by (simp add: outline_of_dest_def bind_err_simps)
  have ne: "[Warning_unsupported_pageref PNone] \<noteq> []" by simp
  have f3: "first4 (PList [PNone, PSLiteral ''XYZ'', PInt 0, PInt 0]) =
     Inr (PNone, PSLiteral ''XYZ'', PInt 0, PInt 0)"
    by simp
  have p3: "\<not> is_pageref PNone" by simp
  show ?thesis by (intro conjI y i1 f1 p1' p1 i2 n2 z w ne f3 p3)
qed

text \<open>
  C8 as stated fails: a destination with display mode \<open>Fit\<close> is ignored, and no warning
  is logged for it.
\<close>

theorem other_display_mode_no_warning:
  "get_outlines example_extern
     [(PBytes ''Intro'', PList [PInt 0, PSLiteral ''Fit''], PNone)] None = ([], [], None)"
  by (simp add: outline_step_def outline_of_dest_def resolve_dest_def bind_err_simps)

section \<open>Properties of \<^verbatim>\<open>process_file\<close>\<close>

subsection \<open>Pending outlines\<close>

lemma map_of_dd_append:
  "map_of (dd_append k v d) k' \<noteq> None \<longleftrightarrow> k' = k \<or> map_of d k' \<noteq> None"
  by (simp add: dd_append_def update_conv')

lemma map_of_dd_pop:
  "k' \<noteq> k \<Longrightarrow> map_of (snd (dd_pop k d)) k' = map_of d k'"
  by (simp add: dd_pop_def split: option.splits)

lemma pending_file_outline:
  "pending k (file_outline ol st) \<longleftrightarrow> k = pageref ol \<or> pending k st"
  by (cases k; cases "pageref ol")
    (auto simp: file_outline_def map_of_dd_append simp del: not_None_eq)

lemma pending_fold_file_outline:
  "pending k (fold file_outline ols st) \<longleftrightarrow> k \<in> pageref ` set ols \<or> pending k st"
  by (induction ols arbitrary: st) (auto simp: pending_file_outline simp del: pending.simps)

lemma pending_nonempty:
  "pending k st \<Longrightarrow> \<not> (outlines_by_pageno st = [] \<and> outlines_by_objid st = [])"
  by (cases k) auto

lemma bind_err_Inr:
  "bind_err m f = Inr y \<Longrightarrow> \<exists>x. m = Inr x \<and> f x = Inr y"
  by (cases m) (simp_all add: bind_err_simps)

lemma pending_process_page:
  assumes "process_page X n p st = Inr st'" and "pending k st"
    and "k \<noteq> PDFObjRef (pageid p)" and "k \<noteq> PInt (int n)"
  shows "pending k st'"
proof -
  from assms(1) have
    "outlines_by_objid st' = snd (dd_pop (pageid p) (outlines_by_objid st)) \<and>
     outlines_by_pageno st' = snd (dd_pop (PInt (int n)) (outlines_by_pageno st))"
    unfolding process_page_def Let_def
    by (auto dest!: bind_err_Inr split: option.splits prod.splits)
  then show ?thesis using assms(2-4)
    by (cases k) (auto simp: map_of_dd_pop)
qed

lemma pending_process_pages:
  assumes "process_pages X n ps st = Inr st'" and "pending k st"
    and "\<forall>p \<in> set ps. k \<noteq> PDFObjRef (pageid p)"
    and "\<forall>j < length ps. k \<noteq> PInt (int (n + j))"
  shows "pending k st'"
  using assms
proof (induction ps arbitrary: n st)
  case Nil
  then show ?case by simp
next
  case (Cons p ps)
  from Cons.prems(1) obtain st1 where
    s: "process_page X n p st = Inr st1" "process_pages X (Suc n) ps st1 = Inr st'"
    by (auto dest: bind_err_Inr)
  have "k \<noteq> PInt (int n)" using Cons.prems(4) by force
  then have p1: "pending k st1"
    using pending_process_page[OF s(1) Cons.prems(2)] Cons.prems(3) by simp
  have "\<forall>j < length ps. k \<noteq> PInt (int (Suc n + j))"
  proof (intro allI impI)
    fix j assume "j < length ps"
    then have "Suc j < length (p # ps)" by simp
    with Cons.prems(4) have "k \<noteq> PInt (int (n + Suc j))" by blast
    then show "k \<noteq> PInt (int (Suc n + j))" by simp
  qed
  then show ?case using Cons.IH[OF s(2) p1] Cons.prems(3) by simp
qed

lemma not_appears_keys:
  assumes "\<not> page_appears k ps"
  shows "(\<forall>p \<in> set ps. k \<noteq> PDFObjRef (pageid p)) \<and> (\<forall>j < length ps. k \<noteq> PInt (int (0 + j)))"
  using assms by (cases k) (auto simp: list_ex_iff)

text \<open>
  An outline whose page reference no page answers stays in its pending dictionary to the
  end: whenever the loop over the pages finishes, the final assertion on the dictionaries
  fails, and \<^verbatim>\<open>process_file\<close> returns no list.
\<close>

lemma dangling_outline_fails:
  assumes "get_outlines X (raw_outlines doc) (outlines_error doc) = (ols, l, err)"
    and "ol \<in> set ols" and "\<not> page_appears (pageref ol) (pages doc)"
  shows "(\<exists>e. process_file X doc = Inl e) \<and>
     (\<forall>st. process_pages X 0 (pages doc) (fold file_outline ols init_progress) = Inr st \<longrightarrow>
        process_file X doc = Inl AssertionError)"
proof -
  let ?st0 = "fold file_outline ols (init_progress :: 'a progress)"
  have p0: "pending (pageref ol) ?st0"
    using assms(2) by (simp add: pending_fold_file_outline)
  have fin: "\<And>st. process_pages X 0 (pages doc) ?st0 = Inr st \<Longrightarrow>
      process_file X doc = Inl AssertionError"
  proof -
    fix st assume r: "process_pages X 0 (pages doc) ?st0 = Inr st"
    from not_appears_keys[OF assms(3)] have "pending (pageref ol) st"
      using pending_process_pages[OF r p0] by blast
    from pending_nonempty[OF this] show "process_file X doc = Inl AssertionError"
      using r assms(1) by (simp add: process_file_def bind_err_simps)
  qed
  have "\<exists>e. process_file X doc = Inl e"
  proof (cases "process_pages X 0 (pages doc) ?st0")
    case (Inl e)
    then show ?thesis using assms(1) by (simp add: process_file_def bind_err_simps)
  next
    case (Inr st)
    from fin[OF this] show ?thesis by blast
  qed
  then show ?thesis using fin by blast
qed

lemmas process_defs =
  process_file_def process_page_def outline_step_def outline_of_dest_def resolve_dest_def
  file_outline_def dd_append_def dd_pop_def init_progress_def annots_iter_def
  receive_layout_def start_page_def Outline_init_def Outline_resolve_def bind_err_simps
  Let_def

text \<open>
  C1. An outline entry whose referenced page never appears among the processed pages is to
  be dropped without an exception, \<^verbatim>\<open>process_file\<close> returning its lists without the entry.
  The code falls short of it: with an outline to page index 5 in a document of one page
  the entry is still pending after the last page, and \<^verbatim>\<open>process_file\<close> fails its own final
  assertion, written under the comment that all outlines should be resolved by then.
\<close>

theorem dangling_outline_raises:
  "process_file example_extern example_dangling = Inl AssertionError"
  by (simp add: example_dangling_def example_extern_def process_defs)

lemma dangling_outline_fails_example:
  "get_outlines example_extern (raw_outlines example_dangling) (outlines_error example_dangling) =
     ([Outline_init (PBytes ''Far'') (PInt 5) (PInt 0, PInt 0)], [], None) \<and>
   Outline_init (PBytes ''Far'') (PInt 5) (PInt 0, PInt 0) \<in>
     set [Outline_init (PBytes ''Far'') (PInt 5) (PInt 0, PInt 0)] \<and>
   \<not> page_appears (pageref (Outline_init (PBytes ''Far'') (PInt 5) (PInt 0, PInt 0)))
       (pages example_dangling) \<and>
   (\<exists>e. process_file example_extern example_dangling = Inl e)"
proof -
  have h1: "get_outlines example_extern (raw_outlines example_dangling)
      (outlines_error example_dangling) =
     ([Outline_init (PBytes ''Far'') (PInt 5) (PInt 0, PInt 0)], [], None)"
    by (simp add: example_dangling_def outline_step_def outline_of_dest_def resolve_dest_def
        bind_err_simps)
  have h2: "Outline_init (PBytes ''Far'') (PInt 5) (PInt 0, PInt 0) \<in>
     set [Outline_init (PBytes ''Far'') (PInt 5) (PInt 0, PInt 0)]"
    by simp
  have h3: "\<not> page_appears (pageref (Outline_init (PBytes ''Far'') (PInt 5) (PInt 0, PInt 0)))
       (pages example_dangling)"
    by (simp add: Outline_init_def example_dangling_def)
  from dangling_outline_fails [OF h1 h2 h3] h1 h2 h3 show ?thesis by blast
qed


subsection \<open>Failures of single records\<close>







text \<open>
  A record with no subtype passes the guard of \<^verbatim>\<open>_mkannotation\<close>, whose last line then
  reads \<^verbatim>\<open>subtype.name\<close>: the exception ends \<^verbatim>\<open>process_file\<close>.
\<close>

lemma missing_subtype_raises:
  "process_file example_extern example_no_subtype = Inl AttributeError"
  by (simp add: example_no_subtype_def example_extern_def process_defs mkannotation_def
      decode_opt_def py_or_def)


end
